theory Spec2Isabelle
  imports Complex_Main "HOL-Library.Sublist"
begin

section \<open>Strings of the page script\<close>

text \<open>
  A JavaScript string is a sequence of UTF-16 code units; a code unit is modelled as a
  natural number. \<open>str\<close> turns an ASCII literal into code units, and \<open>bs w\<close> is a
  backslash followed by \<open>w\<close> (a backslash cannot be written inside a literal).
\<close>

type_synonym jsstr = "nat list"

definition str :: "string \<Rightarrow> jsstr" where
  "str w = map of_char w"

definition bs :: "string \<Rightarrow> jsstr" where
  "bs w = 0x5C # str w"

text \<open>\<open>s.slice(a, b)\<close> for non-negative indices.\<close>

definition slice :: "jsstr \<Rightarrow> nat \<Rightarrow> nat \<Rightarrow> jsstr" where
  "slice s a b = take (b - a) (drop a s)"

text \<open>The white space and line terminator code units: the class \<open>\s\<close>, and what \<open>trim\<close> strips.\<close>

definition is_space :: "nat \<Rightarrow> bool" where
  "is_space c \<longleftrightarrow>
     c = 0x09 \<or> c = 0x0A \<or> c = 0x0B \<or> c = 0x0C \<or> c = 0x0D \<or> c = 0x20 \<or> c = 0xA0 \<or>
     c = 0x1680 \<or> (0x2000 \<le> c \<and> c \<le> 0x200A) \<or> c = 0x2028 \<or> c = 0x2029 \<or>
     c = 0x202F \<or> c = 0x205F \<or> c = 0x3000 \<or> c = 0xFEFF"

definition trim :: "jsstr \<Rightarrow> jsstr" where
  "trim s = rev (dropWhile is_space (rev (dropWhile is_space s)))"

section \<open>Regular expressions\<close>

text \<open>
  A pattern is a backtracking matcher: from a state (the current index and the captures so
  far) it returns every way to match, in the order the engine tries them; the head of
  the list is the match the engine reports. Greedy and lazy quantifiers differ in that order.
\<close>

type_synonym captures = "nat \<Rightarrow> (nat \<times> nat) option"
type_synonym mstate = "nat \<times> captures"
type_synonym matcher = "jsstr \<Rightarrow> mstate \<Rightarrow> mstate list"

definition eps :: matcher where
  "eps inp x = [x]"

definition cls :: "(nat \<Rightarrow> bool) \<Rightarrow> matcher" where
  "cls P inp x = (if fst x < length inp \<and> P (inp ! fst x) then [(Suc (fst x), snd x)] else [])"

definition lit :: "jsstr \<Rightarrow> matcher" where
  "lit w inp x =
     (if slice inp (fst x) (fst x + length w) = w then [(fst x + length w, snd x)] else [])"

definition seq :: "matcher \<Rightarrow> matcher \<Rightarrow> matcher" where
  "seq m1 m2 inp x = concat (map (m2 inp) (m1 inp x))"

definition alt :: "matcher \<Rightarrow> matcher \<Rightarrow> matcher" where
  "alt m1 m2 inp x = m1 inp x @ m2 inp x"

fun seqs :: "matcher list \<Rightarrow> matcher" where
  "seqs [] = eps"
| "seqs (m # ms) = seq m (seqs ms)"

fun alts :: "matcher list \<Rightarrow> matcher" where
  "alts [] = (\<lambda>inp x. [])"
| "alts (m # ms) = alt m (alts ms)"

text \<open>\<open>m?\<close>: greedy, the match of \<open>m\<close> is tried first.\<close>

definition opt :: "matcher \<Rightarrow> matcher" where
  "opt m = alt m eps"

text \<open>
  \<open>m*\<close> and \<open>m*?\<close>. An iteration that consumes nothing is rejected, as the engine does; no
  match ends beyond the input, which the second condition of the filter records.
\<close>

function star :: "matcher \<Rightarrow> matcher" where
  "star m inp x =
     concat (map (star m inp)
       (filter (\<lambda>y. fst x < fst y \<and> fst y \<le> length inp) (m inp x))) @ [x]"
  by pat_completeness auto
termination
  by (relation "measure (\<lambda>(m, inp, x). length inp - fst x)") auto

function star_lazy :: "matcher \<Rightarrow> matcher" where
  "star_lazy m inp x =
     x # concat (map (star_lazy m inp)
       (filter (\<lambda>y. fst x < fst y \<and> fst y \<le> length inp) (m inp x)))"
  by pat_completeness auto
termination
  by (relation "measure (\<lambda>(m, inp, x). length inp - fst x)") auto

declare star.simps [simp del] star_lazy.simps [simp del]

text \<open>\<open>m+\<close> and \<open>m{2,}\<close>.\<close>

definition plus :: "matcher \<Rightarrow> matcher" where
  "plus m = seq m (star m)"

definition two_or_more :: "matcher \<Rightarrow> matcher" where
  "two_or_more m = seq m (seq m (star m))"

text \<open>Capture group \<open>n\<close>, the backreference to it, and the two lookaheads.\<close>

definition group :: "nat \<Rightarrow> matcher \<Rightarrow> matcher" where
  "group n m inp x = map (\<lambda>y. (fst y, (snd y)(n \<mapsto> (fst x, fst y)))) (m inp x)"

definition backref :: "nat \<Rightarrow> matcher" where
  "backref n inp x =
     (case snd x n of
        None \<Rightarrow> [x]
      | Some (a, b) \<Rightarrow> lit (slice inp a b) inp x)"

definition lookahead :: "matcher \<Rightarrow> matcher" where
  "lookahead m inp x = (case m inp x of [] \<Rightarrow> [] | y # ys \<Rightarrow> [(fst x, snd y)])"

definition not_lookahead :: "matcher \<Rightarrow> matcher" where
  "not_lookahead m inp x = (case m inp x of [] \<Rightarrow> [x] | y # ys \<Rightarrow> [])"

text \<open>
  \<open>re.exec(s)\<close> for a global pattern whose \<open>lastIndex\<close> is \<open>i\<close>: the first index from \<open>i\<close>
  on where the pattern matches, with the end of the match (the new \<open>lastIndex\<close>) and the
  captures; \<open>None\<close> is the \<open>null\<close> result.
\<close>

function exec :: "matcher \<Rightarrow> jsstr \<Rightarrow> nat \<Rightarrow> (nat \<times> nat \<times> captures) option" where
  "exec m s i =
     (if length s < i then None
      else case m s (i, Map.empty) of
             y # ys \<Rightarrow> Some (i, fst y, snd y)
           | [] \<Rightarrow> exec m s (Suc i))"
  by pat_completeness auto
termination
  by (relation "measure (\<lambda>(m, s, i). Suc (length s) - i)") auto

declare exec.simps [simp del]

text \<open>The text of capture group \<open>n\<close>, \<open>None\<close> when the group did not take part.\<close>

definition group_text :: "jsstr \<Rightarrow> captures \<Rightarrow> nat \<Rightarrow> jsstr option" where
  "group_text s c n = map_option (\<lambda>ab. slice s (fst ab) (snd ab)) (c n)"

lemma exec_bounds:
  "exec m s i = Some (idx, e, c) \<Longrightarrow> i \<le> idx \<and> idx \<le> length s"
proof (induction m s i rule: exec.induct)
  case (1 m s i)
  show ?case
  proof (cases "m s (i, Map.empty)")
    case Nil
    with "1.prems" have "\<not> length s < i" and "exec m s (Suc i) = Some (idx, e, c)"
      by (auto simp: exec.simps [of m s i] split: if_splits)
    with "1.IH" Nil show ?thesis by fastforce
  next
    case (Cons y ys)
    with "1.prems" show ?thesis
      by (auto simp: exec.simps [of m s i] split: if_splits)
  qed
qed

text \<open>
  \<open>s.replace(re, f)\<close> for a global pattern: every match found by repeated \<open>exec\<close> is
  replaced by \<open>f\<close> of the matched text and the groups; after an empty match the search
  resumes one code unit further. \<open>pos\<close> is the end of the text already copied.
\<close>

type_synonym replacer = "jsstr \<Rightarrow> (nat \<Rightarrow> jsstr option) \<Rightarrow> jsstr"

function replace_from :: "matcher \<Rightarrow> replacer \<Rightarrow> jsstr \<Rightarrow> nat \<Rightarrow> nat \<Rightarrow> jsstr" where
  "replace_from m f s i pos =
     (case exec m s i of
        None \<Rightarrow> drop pos s
      | Some (idx, e, c) \<Rightarrow>
          slice s pos idx @ f (slice s idx e) (group_text s c)
            @ replace_from m f s (if e \<le> idx then Suc idx else e) e)"
  by pat_completeness auto
termination
  by (relation "measure (\<lambda>(m, f, s, i, pos). Suc (length s) - i)")
    (auto dest!: exec_bounds)

declare replace_from.simps [simp del]

definition replace_all :: "matcher \<Rightarrow> replacer \<Rightarrow> jsstr \<Rightarrow> jsstr" where
  "replace_all m f s = replace_from m f s 0 0"

text \<open>A replacement given as a string without \<open>$\<close> patterns.\<close>

definition const :: "jsstr \<Rightarrow> replacer" where
  "const r = (\<lambda>w g. r)"

section \<open>escapeHTML\<close>

text \<open>The class \<open>[&<>"']\<close> and the entity table of \<open>escapeHTML\<close>.\<close>

definition is_html_special :: "nat \<Rightarrow> bool" where
  "is_html_special c \<longleftrightarrow> c = 0x26 \<or> c = 0x3C \<or> c = 0x3E \<or> c = 0x22 \<or> c = 0x27"

definition entity :: "jsstr \<Rightarrow> jsstr" where
  "entity w =
     (if w = str ''&'' then str ''&amp;''
      else if w = str ''<'' then str ''&lt;''
      else if w = str ''>'' then str ''&gt;''
      else if w = [0x22] then str ''&quot;''
      else if w = [0x27] then str ''&#39;''
      else str ''undefined'')"

definition escapeHTML :: "jsstr \<Rightarrow> jsstr" where
  "escapeHTML s = replace_all (cls is_html_special) (\<lambda>w g. entity w) s"

text \<open>What \<open>escapeHTML\<close> puts in place of one code unit.\<close>

definition esc :: "nat \<Rightarrow> jsstr" where
  "esc c = (if is_html_special c then entity [c] else [c])"

section \<open>processLatexForDisplay\<close>

text \<open>\<open>[\s\S]\<close>: any code unit.\<close>

definition any_char :: matcher where
  "any_char = cls (\<lambda>c. True)"

text \<open>
  Step 1, the pattern \<^verbatim>\<open>\\begin\{(equation|align)\*?\}([\s\S]*?)\\end\{\1\*?\}\<close>, replaced by
  the trimmed inner text between \<^verbatim>\<open>\[\<close> and \<^verbatim>\<open>\]\<close>.
\<close>

definition re_env :: matcher where
  "re_env = seqs
     [lit (bs ''begin{''), group 1 (alt (lit (str ''equation'')) (lit (str ''align''))),
      opt (lit (str ''*'')), lit (str ''}''), group 2 (star_lazy any_char),
      lit (bs ''end{''), backref 1, opt (lit (str ''*'')), lit (str ''}'')]"

definition env_to_brackets :: replacer where
  "env_to_brackets w g = (case g 2 of None \<Rightarrow> [] | Some inner \<Rightarrow> bs ''['' @ trim inner @ bs '']'')"

text \<open>
  Step 2, the patterns \<^verbatim>\<open>\\(label|ref|eqref|cite)\{[^}]*\}\<close>,
  \<^verbatim>\<open>\\begin\{(enumerate|itemize)\}(\[[^\]]*\])?\<close>, \<^verbatim>\<open>\\end\{(enumerate|itemize)\}\<close>,
  \<^verbatim>\<open>\\item\s*\<close>, \<^verbatim>\<open>~\<close> and \<^verbatim>\<open>\s{2,}\<close>.
\<close>

definition re_ref :: matcher where
  "re_ref = seqs
     [lit (bs []),
      group 1 (alts [lit (str ''label''), lit (str ''ref''), lit (str ''eqref''), lit (str ''cite'')]),
      lit (str ''{''), star (cls (\<lambda>c. c \<noteq> of_char CHR ''}'')), lit (str ''}'')]"

definition re_begin_list :: matcher where
  "re_begin_list = seqs
     [lit (bs ''begin{''), group 1 (alt (lit (str ''enumerate'')) (lit (str ''itemize''))),
      lit (str ''}''),
      opt (group 2 (seqs [lit (str ''[''), star (cls (\<lambda>c. c \<noteq> of_char CHR '']'')), lit (str '']'')]))]"

definition re_end_list :: matcher where
  "re_end_list = seqs
     [lit (bs ''end{''), group 1 (alt (lit (str ''enumerate'')) (lit (str ''itemize''))),
      lit (str ''}'')]"

definition re_item :: matcher where
  "re_item = seq (lit (bs ''item'')) (star (cls is_space))"

definition re_tilde :: matcher where
  "re_tilde = lit (str ''~'')"

definition re_spaces :: matcher where
  "re_spaces = two_or_more (cls is_space)"

text \<open>The line break and bullet (U+2022) that replace \<^verbatim>\<open>\item\<close>.\<close>

definition br_bullet :: jsstr where
  "br_bullet = str ''<br>'' @ [0x2022] @ str '' ''"

definition clean :: "jsstr \<Rightarrow> jsstr" where
  "clean s =
     trim
      (replace_all re_spaces (const (str '' ''))
        (replace_all re_tilde (const (str '' ''))
          (replace_all re_item (const br_bullet)
            (replace_all re_end_list (const [])
              (replace_all re_begin_list (const [])
                (replace_all re_ref (const []) s))))))"

definition normalize :: "jsstr \<Rightarrow> jsstr" where
  "normalize raw = clean (replace_all re_env env_to_brackets raw)"

text \<open>Step 3: the sentinel and the pattern \<^verbatim>\<open><br\s*\/?>\<close> it replaces.\<close>

definition SENTINEL :: jsstr where
  "SENTINEL = str ''__BR_SENTINEL__''"

definition re_br :: matcher where
  "re_br = seqs [lit (str ''<br''), star (cls is_space), opt (lit (str ''/'')), lit (str ''>'')]"

definition protect :: "jsstr \<Rightarrow> jsstr" where
  "protect s = replace_all re_br (const SENTINEL) s"

text \<open>
  The pattern of the four delimiter pairs,
  \<^verbatim>\<open>(\\\([\s\S]*?\\\)|\\\[[\s\S]*?\\\]|\$\$[\s\S]*?\$\$|\$[\s\S]*?\$)\<close>.
\<close>

definition re :: matcher where
  "re = group 1 (alts
     [seqs [lit (bs ''(''), star_lazy any_char, lit (bs '')'')],
      seqs [lit (bs ''[''), star_lazy any_char, lit (bs '']'')],
      seqs [lit (str ''$$''), star_lazy any_char, lit (str ''$$'')],
      seqs [lit (str ''$''), star_lazy any_char, lit (str ''$'')]])"

text \<open>
  The math segment: \<^verbatim>\<open>\\hspace\s*\{\s*\}\<close> and \<^verbatim>\<open>\\hspace(?!\s*\{[^}]+\})\<close> become
  \<^verbatim>\<open>\,\<close>; then \<^verbatim>\<open><\<close> is replaced by \<^verbatim>\<open><\<close> and \<^verbatim>\<open>>\<close> by \<^verbatim>\<open>>\<close>, as the source has it.
\<close>

definition re_hspace_empty :: matcher where
  "re_hspace_empty = seqs
     [lit (bs ''hspace''), star (cls is_space), lit (str ''{''), star (cls is_space), lit (str ''}'')]"

definition re_hspace_bare :: matcher where
  "re_hspace_bare = seq (lit (bs ''hspace''))
     (not_lookahead
       (seqs [star (cls is_space), lit (str ''{''), plus (cls (\<lambda>c. c \<noteq> of_char CHR ''}'')),
              lit (str ''}'')]))"

definition mathSeg :: "jsstr \<Rightarrow> jsstr" where
  "mathSeg m0 =
     replace_all (lit (str ''>'')) (const (str ''>''))
      (replace_all (lit (str ''<'')) (const (str ''<''))
        (replace_all re_hspace_bare (const (bs '',''))
          (replace_all re_hspace_empty (const (bs '','')) m0)))"

text \<open>
  Every match of a pattern built from the combinators ends at or after its start and inside
  the string; \<open>adv k m\<close> says that \<open>m\<close> consumes at least \<open>k\<close> code units. The delimiter
  pattern consumes at least two, so the loop over its matches terminates.
\<close>

lemma exec_SomeD:
  "exec m s i = Some (idx, e, c) \<Longrightarrow>
     i \<le> idx \<and> idx \<le> length s \<and> (\<exists>ys. m s (idx, Map.empty) = (e, c) # ys) \<and>
     (\<forall>j. i \<le> j \<and> j < idx \<longrightarrow> m s (j, Map.empty) = [])"
proof (induction m s i rule: exec.induct)
  case (1 m s i)
  show ?case
  proof (cases "m s (i, Map.empty)")
    case Nil
    with "1.prems" have le: "\<not> length s < i" and ex: "exec m s (Suc i) = Some (idx, e, c)"
      by (auto simp: exec.simps [of m s i] split: if_splits)
    from "1.IH" [OF le Nil ex] have
      a: "Suc i \<le> idx" "idx \<le> length s" "\<exists>ys. m s (idx, Map.empty) = (e, c) # ys"
      and b: "\<forall>j. Suc i \<le> j \<and> j < idx \<longrightarrow> m s (j, Map.empty) = []"
      by blast+
    have "m s (j, Map.empty) = []" if "i \<le> j" "j < idx" for j
    proof (cases "j = i")
      case True with Nil show ?thesis by simp
    next
      case False
      with that have "Suc i \<le> j" by simp
      with b that show ?thesis by blast
    qed
    with a show ?thesis by auto
  next
    case (Cons y ys)
    with "1.prems" show ?thesis
      by (auto simp: exec.simps [of m s i] split: if_splits)
  qed
qed

definition adv :: "nat \<Rightarrow> matcher \<Rightarrow> bool" where
  "adv k m \<longleftrightarrow>
     (\<forall>inp x y. y \<in> set (m inp x) \<longrightarrow>
        fst x + k \<le> fst y \<and> (fst x \<le> length inp \<longrightarrow> fst y \<le> length inp))"

lemma advD:
  "adv k m \<Longrightarrow> y \<in> set (m inp x) \<Longrightarrow>
     fst x + k \<le> fst y \<and> (fst x \<le> length inp \<longrightarrow> fst y \<le> length inp)"
  unfolding adv_def by blast

lemma adv_mono: "adv k m \<Longrightarrow> j \<le> k \<Longrightarrow> adv j m"
  unfolding adv_def by fastforce

lemma adv_eps: "adv 0 eps"
  by (simp add: adv_def eps_def)

lemma adv_cls: "adv 1 (cls P)"
  by (auto simp: adv_def cls_def)

lemma length_str [simp]: "length (str w) = length w"
  by (simp add: str_def)

lemma length_bs [simp]: "length (bs w) = Suc (length w)"
  by (simp add: bs_def)

lemma adv_lit: "adv (length w) (lit w)"
proof -
  have "fst x + length w \<le> length inp"
    if "slice inp (fst x) (fst x + length w) = w" "fst x \<le> length inp" for inp and x :: mstate
  proof -
    from that(1) have "length (slice inp (fst x) (fst x + length w)) = length w" by simp
    with that(2) show ?thesis by (simp add: slice_def)
  qed
  then show ?thesis by (auto simp: adv_def lit_def)
qed

lemma adv_seq: "adv j m1 \<Longrightarrow> adv k m2 \<Longrightarrow> adv (j + k) (seq m1 m2)"
  unfolding adv_def seq_def by fastforce

lemma adv_alt: "adv k m1 \<Longrightarrow> adv k m2 \<Longrightarrow> adv k (alt m1 m2)"
  unfolding adv_def alt_def by fastforce

lemma adv_group: "adv k m \<Longrightarrow> adv k (group n m)"
  unfolding adv_def group_def by fastforce

lemma adv_star_lazy: "adv 0 (star_lazy m)"
proof -
  have "fst x \<le> fst y \<and> (fst x \<le> length inp \<longrightarrow> fst y \<le> length inp)"
    if "y \<in> set (star_lazy m inp x)" for inp x y
    using that
  proof (induction m inp x rule: star_lazy.induct)
    case (1 m inp x)
    from "1.prems" show ?case
      by (subst (asm) star_lazy.simps) (use "1.IH" in fastforce)
  qed
  then show ?thesis by (simp add: adv_def)
qed

lemma adv_star: "adv 0 (star m)"
proof -
  have "fst x \<le> fst y \<and> (fst x \<le> length inp \<longrightarrow> fst y \<le> length inp)"
    if "y \<in> set (star m inp x)" for inp x y
    using that
  proof (induction m inp x rule: star.induct)
    case (1 m inp x)
    from "1.prems" show ?case
      by (subst (asm) star.simps) (use "1.IH" in fastforce)
  qed
  then show ?thesis by (simp add: adv_def)
qed

lemma adv_re: "adv 2 re"
proof -
  have a: "adv 2 (seqs [lit (bs w), star_lazy any_char, lit (bs v)])" for w v
    using adv_seq [OF adv_lit [of "bs w"] adv_seq [OF adv_star_lazy [of any_char] adv_seq [OF adv_lit [of "bs v"] adv_eps]]]
    by (auto intro: adv_mono)
  have b: "adv 2 (seqs [lit (str w), star_lazy any_char, lit (str v)])" if "w \<noteq> []" "v \<noteq> []" for w v
  proof -
    from that have "2 \<le> length (str w) + (0 + (length (str v) + 0))"
      by (cases w; cases v) simp_all
    with adv_seq [OF adv_lit [of "str w"] adv_seq [OF adv_star_lazy [of any_char] adv_seq [OF adv_lit [of "str v"] adv_eps]]]
    show ?thesis by (auto intro: adv_mono)
  qed
  have "adv 2 (alts [])" by (simp add: adv_def)
  with a b show ?thesis
    unfolding re_def by (auto intro!: adv_group adv_alt)
qed

lemma exec_re:
  assumes "exec re s i = Some (idx, e, c)"
  shows "i \<le> idx \<and> idx + 2 \<le> e \<and> e \<le> length s"
proof -
  from exec_SomeD [OF assms] obtain ys where
    *: "i \<le> idx" "idx \<le> length s" "re s (idx, Map.empty) = (e, c) # ys" by blast
  from advD [OF adv_re, of "(e, c)" s "(idx, Map.empty)"] * show ?thesis by simp
qed

text \<open>
  The loop \<^verbatim>\<open>while ((m = re.exec(processedStr)))\<close>: \<open>out\<close> and \<open>last'\<close> are the variables \<open>out\<close> and \<open>last\<close> of the source,
  \<open>lastIndex\<close> is the \<open>lastIndex\<close> of \<open>re\<close>.
\<close>

function segment_loop :: "jsstr \<Rightarrow> jsstr \<Rightarrow> nat \<Rightarrow> nat \<Rightarrow> jsstr \<times> nat" where
  "segment_loop s out last' lastIndex =
     (case exec re s lastIndex of
        None \<Rightarrow> (out, last')
      | Some (idx, e, c) \<Rightarrow>
          segment_loop s (out @ escapeHTML (slice s last' idx) @ mathSeg (slice s idx e)) e e)"
  by pat_completeness auto
termination
  by (relation "measure (\<lambda>(s, out, last', lastIndex). Suc (length s) - lastIndex)")
    (auto dest!: exec_re)

declare segment_loop.simps [simp del]

definition split_and_escape :: "jsstr \<Rightarrow> jsstr" where
  "split_and_escape s =
     (case segment_loop s [] 0 0 of
        (out, last') \<Rightarrow> if last' < length s then out @ escapeHTML (drop last' s) else out)"

definition restore :: "jsstr \<Rightarrow> jsstr" where
  "restore out = replace_all (lit SENTINEL) (const (str ''<br>'')) out"

text \<open>The argument is \<open>None\<close> for \<open>null\<close> and \<open>undefined\<close>, and \<open>Some\<close> of the string otherwise.\<close>

definition processLatexForDisplay :: "jsstr option \<Rightarrow> jsstr" where
  "processLatexForDisplay rawStr =
     (case rawStr of
        None \<Rightarrow> []
      | Some raw \<Rightarrow> restore (split_and_escape (protect (normalize raw))))"

section \<open>parseCandidates\<close>

text \<open>
  Values of the script: \<open>Number\<close> holds a finite number by its exact value, \<open>Other\<close> stands
  for any value not told apart here (a function, \<open>NaN\<close>, ...).
\<close>

datatype jsval =
    Undefined | Null | Boolean bool | Number rat | String jsstr
  | Array "jsval list" | Object "(jsstr \<times> jsval) list" | Other

text \<open>How a call ends: with a value, with an exception, or not at all.\<close>

datatype 'a outcome = Returns 'a | Throws | Diverges

text \<open>
  \<open>JSON.parse\<close> and the call \<open>Function(src)()\<close> belong to the engine and are parameters of the
  model.
\<close>

record runtime =
  JSON_parse :: "jsstr \<Rightarrow> jsval outcome"
  Function_call :: "jsstr \<Rightarrow> jsval outcome"

text \<open>\<open>try { body } catch (e) { handler }\<close>.\<close>

definition try_catch :: "'a outcome \<Rightarrow> 'a outcome \<Rightarrow> 'a outcome" where
  "try_catch body handler = (case body of Throws \<Rightarrow> handler | r \<Rightarrow> r)"

text \<open>\<open>sq w\<close> and \<open>dq w\<close> are \<open>w\<close> in single and in double quotes.\<close>

definition sq :: "string \<Rightarrow> jsstr" where
  "sq w = 0x27 # str w @ [0x27]"

definition dq :: "string \<Rightarrow> jsstr" where
  "dq w = 0x22 # str w @ [0x22]"

text \<open>The class \<open>\w\<close> and the assertions \<open>\b\<close>, \<open>^\<close> and \<open>$\<close>.\<close>

definition is_word :: "nat \<Rightarrow> bool" where
  "is_word c \<longleftrightarrow>
     (0x41 \<le> c \<and> c \<le> 0x5A) \<or> (0x61 \<le> c \<and> c \<le> 0x7A) \<or> (0x30 \<le> c \<and> c \<le> 0x39) \<or> c = 0x5F"

definition word_boundary :: matcher where
  "word_boundary inp x =
     (if (0 < fst x \<and> fst x \<le> length inp \<and> is_word (inp ! (fst x - 1)))
         \<noteq> (fst x < length inp \<and> is_word (inp ! fst x))
      then [x] else [])"

definition bol :: matcher where
  "bol inp x = (if fst x = 0 then [x] else [])"

definition eol :: matcher where
  "eol inp x = (if fst x = length inp then [x] else [])"

text \<open>\<open>re.test(s)\<close> for a pattern without the global flag.\<close>

definition test :: "matcher \<Rightarrow> jsstr \<Rightarrow> bool" where
  "test m s \<longleftrightarrow> exec m s 0 \<noteq> None"

text \<open>
  \<open>JSON.stringify\<close> of a string: the string in double quotes, with the quote, the backslash
  and the control characters escaped, and a surrogate that is not part of a pair written
  as \<^verbatim>\<open>\uXXXX\<close>.
\<close>

definition hex_digit :: "nat \<Rightarrow> nat" where
  "hex_digit d = (if d < 10 then 0x30 + d else 0x61 + (d - 10))"

definition unicode_escape :: "nat \<Rightarrow> jsstr" where
  "unicode_escape c =
     bs ''u'' @ [hex_digit (c div 4096 mod 16), hex_digit (c div 256 mod 16),
                 hex_digit (c div 16 mod 16), hex_digit (c mod 16)]"

definition is_lead :: "nat \<Rightarrow> bool" where
  "is_lead c \<longleftrightarrow> 0xD800 \<le> c \<and> c \<le> 0xDBFF"

definition is_trail :: "nat \<Rightarrow> bool" where
  "is_trail c \<longleftrightarrow> 0xDC00 \<le> c \<and> c \<le> 0xDFFF"

definition quote_unit :: "nat \<Rightarrow> jsstr" where
  "quote_unit c =
     (if c = 0x08 then bs ''b'' else if c = 0x09 then bs ''t'' else if c = 0x0A then bs ''n''
      else if c = 0x0C then bs ''f'' else if c = 0x0D then bs ''r''
      else if c = 0x22 then [0x5C, 0x22] else if c = 0x5C then [0x5C, 0x5C]
      else if c < 0x20 \<or> is_lead c \<or> is_trail c then unicode_escape c
      else [c])"

fun quote_units :: "jsstr \<Rightarrow> jsstr" where
  "quote_units [] = []"
| "quote_units [c] = quote_unit c"
| "quote_units (c # d # cs) =
     (if is_lead c \<and> is_trail d then c # d # quote_units cs
      else quote_unit c @ quote_units (d # cs))"

definition JSON_stringify :: "jsstr \<Rightarrow> jsstr" where
  "JSON_stringify val = 0x22 # quote_units val @ [0x22]"

text \<open>
  The patterns of the lenient rewrite: \<^verbatim>\<open>\bNone\b\<close>, \<^verbatim>\<open>\bTrue\b\<close>, \<^verbatim>\<open>\bFalse\b\<close>,
  \<^verbatim>\<open>([\{,]\s*)'([^'\n]*?)'\s*:\<close>, \<^verbatim>\<open>:\s*'([^'\n]*?)'(\s*[\},])\<close> and
  \<^verbatim>\<open>(\[|\s,)\s*'([^'\n]*?)'\s*(?=(,|\]))\<close>.
\<close>

definition re_word :: "string \<Rightarrow> matcher" where
  "re_word w = seqs [word_boundary, lit (str w), word_boundary]"

definition quoted :: "nat \<Rightarrow> matcher" where
  "quoted n = seqs [lit [0x27], group n (star_lazy (cls (\<lambda>c. c \<noteq> 0x27 \<and> c \<noteq> 0x0A))), lit [0x27]]"

definition re_key :: matcher where
  "re_key = seqs
     [group 1 (seq (cls (\<lambda>c. c = of_char CHR ''{'' \<or> c = of_char CHR '','')) (star (cls is_space))),
      quoted 2, star (cls is_space), lit (str '':'')]"

definition re_value :: matcher where
  "re_value = seqs
     [lit (str '':''), star (cls is_space), quoted 1,
      group 2 (seq (star (cls is_space)) (cls (\<lambda>c. c = of_char CHR ''}'' \<or> c = of_char CHR '','')))]"

definition re_element :: matcher where
  "re_element = seqs
     [group 1 (alt (lit (str ''['')) (seq (cls is_space) (lit (str '','')))),
      star (cls is_space), quoted 2, star (cls is_space),
      lookahead (group 3 (alt (lit (str '','')) (lit (str '']''))))]"

text \<open>
  A group in a replacement: the empty string when the group did not take part. The groups
  handed to the two replacement functions take part in every match of their patterns.
\<close>

definition grp :: "(nat \<Rightarrow> jsstr option) \<Rightarrow> nat \<Rightarrow> jsstr" where
  "grp g n = (case g n of None \<Rightarrow> [] | Some t \<Rightarrow> t)"

definition lenient :: "jsstr \<Rightarrow> jsstr" where
  "lenient text =
     replace_all re_element (\<lambda>w g. grp g 1 @ JSON_stringify (grp g 2))
      (replace_all re_value (\<lambda>w g. str '': '' @ JSON_stringify (grp g 1) @ grp g 2)
        (replace_all re_key (\<lambda>w g. grp g 1 @ [0x22] @ grp g 2 @ [0x22] @ str '':'')
          (replace_all (re_word ''False'') (const (str ''false''))
            (replace_all (re_word ''True'') (const (str ''true''))
              (replace_all (re_word ''None'') (const (str ''null'')) text)))))"

text \<open>
  The allow-list of the last resort,
  \<^verbatim>\<open>^[\s\[\]\{\}:,0-9.\-+eEtruaflsn"'\u2010-\u206F\u0009\u000A\u000D\u0020A-Za-z&;()_]*$\<close>.
\<close>

definition allowed :: "nat \<Rightarrow> bool" where
  "allowed c \<longleftrightarrow>
     is_space c \<or> c \<in> set (str ''[]{}:,'') \<or> (0x30 \<le> c \<and> c \<le> 0x39) \<or>
     c \<in> set (str ''.-+eEtruaflsn'') \<or> c = 0x22 \<or> c = 0x27 \<or> (0x2010 \<le> c \<and> c \<le> 0x206F) \<or>
     c = 0x09 \<or> c = 0x0A \<or> c = 0x0D \<or> c = 0x20 \<or>
     (0x41 \<le> c \<and> c \<le> 0x5A) \<or> (0x61 \<le> c \<and> c \<le> 0x7A) \<or> c \<in> set (str ''&;()_'')"

definition re_allowed :: matcher where
  "re_allowed = seqs [bol, star (cls allowed), eol]"

text \<open>The source text handed to \<open>Function\<close>: \<^verbatim>\<open>'"use strict";return (' + text + ')'\<close>.\<close>

definition function_source :: "jsstr \<Rightarrow> jsstr" where
  "function_source text = dq ''use strict'' @ str '';return ('' @ text @ str '')''"

text \<open>The final \<open>return []\<close>.\<close>

definition return_empty :: "jsval outcome" where
  "return_empty = Returns (Array [])"

definition parseCandidates :: "runtime \<Rightarrow> jsval \<Rightarrow> jsval outcome" where
  "parseCandidates rt raw =
     (case raw of
        Array xs \<Rightarrow> Returns raw
      | Null \<Rightarrow> Returns (Array [])
      | Undefined \<Rightarrow> Returns (Array [])
      | _ \<Rightarrow>
         (let text = (case raw of String s \<Rightarrow> trim s | _ \<Rightarrow> []) in
          if text = [] then Returns (Array [])
          else
            try_catch (JSON_parse rt text)
              (try_catch (JSON_parse rt (lenient text))
                (try_catch
                  (if test re_allowed text
                   then Function_call rt (function_source text)
                   else return_empty)
                  return_empty))))"



text \<open>
  The texts of the examples, and two engines to run them on: one whose \<open>JSON.parse\<close> accepts
  the two JSON texts of the examples only, and one whose \<open>Function\<close> call returns.
\<close>

definition python_text :: jsstr where
  "python_text =
     str ''[{'' @ sq ''title'' @ str '': '' @ sq ''Foo'' @ str '', '' @ sq ''confidence'' @ str '': 0.5}]''"

definition json_text :: jsstr where
  "json_text =
     str ''[{'' @ dq ''title'' @ str '': '' @ dq ''Foo'' @ str '', '' @ dq ''confidence'' @ str '': 0.5}]''"

definition foo_candidates :: jsval where
  "foo_candidates =
     Array [Object [(str ''title'', String (str ''Foo'')), (str ''confidence'', Number (1 / 2))]]"

definition demo_runtime :: runtime where
  "demo_runtime =
     \<lparr>JSON_parse = (\<lambda>t. if t = str ''[]'' then Returns (Array [])
                        else if t = json_text then Returns foo_candidates else Throws),
      Function_call = (\<lambda>t. Throws)\<rparr>"

definition calling_runtime :: runtime where
  "calling_runtime = \<lparr>JSON_parse = (\<lambda>t. Throws), Function_call = (\<lambda>t. Returns Undefined)\<rparr>"

section \<open>formatConfidence\<close>

text \<open>
  A number of the script: a finite one by its exact value, or one of the three others.
\<close>

datatype jsnum = Finite rat | NaN | PosInfinity | NegInfinity

text \<open>
  What the engine computes in \<open>formatConfidence\<close> and the model leaves to it: \<open>Number(c)\<close>
  for a value that is not a number, the floating-point product, the text of a number, and
  \<open>String(c)\<close> for a value that is neither a string nor a number. A number is coerced to
  itself, and the text of a string is the string.
\<close>

record numerics =
  Number_of :: "jsval \<Rightarrow> jsnum"
  multiply :: "jsnum \<Rightarrow> jsnum \<Rightarrow> jsnum"
  Number_toString :: "jsnum \<Rightarrow> jsstr"
  String_of :: "jsval \<Rightarrow> jsstr"

definition ToNumber :: "numerics \<Rightarrow> jsval \<Rightarrow> jsnum" where
  "ToNumber eng c = (case c of Number q \<Rightarrow> Finite q | _ \<Rightarrow> Number_of eng c)"

definition ToString :: "numerics \<Rightarrow> jsval \<Rightarrow> jsstr" where
  "ToString eng c =
     (case c of
        String s \<Rightarrow> s
      | Number q \<Rightarrow> Number_toString eng (Finite q)
      | _ \<Rightarrow> String_of eng c)"

definition isFinite :: "jsnum \<Rightarrow> bool" where
  "isFinite n = (case n of Finite x \<Rightarrow> True | _ \<Rightarrow> False)"

text \<open>\<open>a <= b\<close> on numbers: false when one of them is \<open>NaN\<close>.\<close>

definition le_num :: "jsnum \<Rightarrow> jsnum \<Rightarrow> bool" where
  "le_num a b =
     (case a of
        NaN \<Rightarrow> False
      | NegInfinity \<Rightarrow> b \<noteq> NaN
      | PosInfinity \<Rightarrow> b = PosInfinity
      | Finite x \<Rightarrow> (case b of Finite y \<Rightarrow> x \<le> y | PosInfinity \<Rightarrow> True | _ \<Rightarrow> False))"

text \<open>\<open>Math.round\<close>: the nearest integer, the greater one of two that are equally near.\<close>

definition Math_round :: "jsnum \<Rightarrow> jsnum" where
  "Math_round n = (case n of Finite x \<Rightarrow> Finite (of_int \<lfloor>x + 1 / 2\<rfloor>) | _ \<Rightarrow> n)"

definition formatConfidence :: "numerics \<Rightarrow> jsval \<Rightarrow> jsstr" where
  "formatConfidence eng c =
     (let num = ToNumber eng c in
      if \<not> isFinite num then ToString eng c
      else if le_num num (Finite 1)
        then Number_toString eng (Math_round (multiply eng num (Finite 100))) @ str ''%''
        else Number_toString eng num)"

text \<open>An engine that multiplies exactly, to run the examples on.\<close>

definition exact_numerics :: numerics where
  "exact_numerics =
     \<lparr>Number_of = (\<lambda>c. NaN),
      multiply = (\<lambda>a b. case (a, b) of (Finite x, Finite y) \<Rightarrow> Finite (x * y) | _ \<Rightarrow> NaN),
      Number_toString = (\<lambda>n. if n = Finite 87 then str ''87'' else if n = Finite 3 then str ''3''
                              else if n = Finite 50 then str ''50'' else str ''?''),
      String_of = (\<lambda>c. str ''?'')\<rparr>"

section \<open>The spans of the specification\<close>

text \<open>
  The specification describes the segmenter by its spans: a plain gap, then a math span, and
  so on, with a last plain span when text remains. \<open>spans s i\<close> lists them for the text from
  index \<open>i\<close> on; \<open>render_span\<close> is what the output holds for a span, and \<open>unescape_span\<close>
  undoes the escaping of a plain span. \<open>unescapeHTML\<close> is the inverse entity substitution.
\<close>

fun unescapeHTML :: "jsstr \<Rightarrow> jsstr" where
  "unescapeHTML [] = []"
| "unescapeHTML (c # cs) =
     (if take 5 (c # cs) = str ''&amp;'' then 0x26 # unescapeHTML (drop 4 cs)
      else if take 4 (c # cs) = str ''&lt;'' then 0x3C # unescapeHTML (drop 3 cs)
      else if take 4 (c # cs) = str ''&gt;'' then 0x3E # unescapeHTML (drop 3 cs)
      else if take 6 (c # cs) = str ''&quot;'' then 0x22 # unescapeHTML (drop 5 cs)
      else if take 5 (c # cs) = str ''&#39;'' then 0x27 # unescapeHTML (drop 4 cs)
      else c # unescapeHTML cs)"

datatype span = Plain jsstr | Math jsstr

function spans :: "jsstr \<Rightarrow> nat \<Rightarrow> span list" where
  "spans s i =
     (case exec re s i of
        None \<Rightarrow> (if i < length s then [Plain (drop i s)] else [])
      | Some (idx, e, c) \<Rightarrow> Plain (slice s i idx) # Math (slice s idx e) # spans s e)"
  by pat_completeness auto
termination
  by (relation "measure (\<lambda>(s, i). Suc (length s) - i)") (auto dest!: exec_re)

declare spans.simps [simp del]

fun span_text :: "span \<Rightarrow> jsstr" where
  "span_text (Plain p) = p"
| "span_text (Math m) = m"

fun render_span :: "span \<Rightarrow> span" where
  "render_span (Plain p) = Plain (escapeHTML p)"
| "render_span (Math m) = Math (mathSeg m)"




text \<open>
  The two repairs of a math span, as the specification words them. \<open>empty_hspace t\<close> holds
  when \<open>t\<close> starts with \<^verbatim>\<open>\hspace\<close> and an empty brace group (white space allowed before
  and inside the braces) and gives the text after it; \<open>bare_hspace t\<close> holds when \<open>t\<close> starts
  with a \<^verbatim>\<open>\hspace\<close> that no non-empty brace group follows. \<open>fix_empty\<close> and \<open>fix_bare\<close> scan
  a text once, put \<^verbatim>\<open>\,\<close> for each such occurrence and copy every other code unit.
\<close>

definition empty_hspace :: "jsstr \<Rightarrow> jsstr option" where
  "empty_hspace t =
     (if prefix (bs ''hspace'') t then
        (let t1 = dropWhile is_space (drop 7 t) in
         if prefix (str ''{'') t1 then
           (let t2 = dropWhile is_space (drop 1 t1) in
            if prefix (str ''}'') t2 then Some (drop 1 t2) else None)
         else None)
      else None)"

definition brace_group :: "jsstr \<Rightarrow> bool" where
  "brace_group t =
     (let t1 = dropWhile is_space t in
      prefix (str ''{'') t1 \<and>
      takeWhile (\<lambda>c. c \<noteq> of_char CHR ''}'') (drop 1 t1) \<noteq> [] \<and>
      dropWhile (\<lambda>c. c \<noteq> of_char CHR ''}'') (drop 1 t1) \<noteq> [])"

definition bare_hspace :: "jsstr \<Rightarrow> bool" where
  "bare_hspace t \<longleftrightarrow> prefix (bs ''hspace'') t \<and> \<not> brace_group (drop 7 t)"

lemma empty_hspace_suffix:
  "empty_hspace t = Some r \<Longrightarrow> suffix r t \<and> length r < length t"
proof -
  assume a: "empty_hspace t = Some r"
  define t1 where "t1 = dropWhile is_space (drop 7 t)"
  define t2 where "t2 = dropWhile is_space (drop 1 t1)"
  from a have p: "prefix (bs ''hspace'') t" and r: "r = drop 1 t2"
    by (auto simp: empty_hspace_def Let_def t1_def t2_def split: if_splits)
  have 1: "\<exists>p. drop 7 t = p @ t1"
    unfolding t1_def by (metis takeWhile_dropWhile_id)
  have 2: "\<exists>p. t1 = p @ t2"
    unfolding t2_def by (metis append_take_drop_id takeWhile_dropWhile_id append_assoc)
  have 3: "\<exists>p. t2 = p @ r"
    unfolding r by (metis append_take_drop_id)
  from 1 2 3 obtain p where p': "drop 7 t = p @ r"
    by (metis append_assoc)
  from p have l: "7 \<le> length t"
    by (auto simp: prefix_def)
  have "t = take 7 t @ drop 7 t" by simp
  with p' have t: "t = (take 7 t @ p) @ r" by simp
  then have "suffix r t" unfolding suffix_def by blast
  moreover have "length (drop 7 t) = length p + length r"
    by (simp only: p' length_append)
  with l have "length r < length t" by simp
  ultimately show ?thesis by blast
qed

function fix_empty :: "jsstr \<Rightarrow> jsstr" where
  "fix_empty [] = []"
| "fix_empty (c # cs) =
     (case empty_hspace (c # cs) of
        Some r \<Rightarrow> bs '','' @ fix_empty r
      | None \<Rightarrow> c # fix_empty cs)"
  by pat_completeness auto
termination
  by (relation "measure length") (auto dest: empty_hspace_suffix)

fun fix_bare :: "jsstr \<Rightarrow> jsstr" where
  "fix_bare [] = []"
| "fix_bare (c # cs) =
     (if bare_hspace (c # cs) then bs '','' @ fix_bare (drop 6 cs) else c # fix_bare cs)"

section \<open>Properties of search and replacement\<close>

lemma exec_NoneD:
  "exec m s i = None \<Longrightarrow> i \<le> j \<Longrightarrow> j \<le> length s \<Longrightarrow> m s (j, Map.empty) = []"
proof (induction m s i rule: exec.induct)
  case (1 m s i)
  from "1.prems" have le: "\<not> length s < i" by simp
  with "1.prems" have nil: "m s (i, Map.empty) = []" and ex: "exec m s (Suc i) = None"
    by (auto simp: exec.simps [of m s i] split: list.splits)
  show ?case
  proof (cases "j = i")
    case True with nil show ?thesis by simp
  next
    case False
    with "1.prems" have "Suc i \<le> j" by simp
    from "1.IH" [OF le nil ex this "1.prems"(3)] show ?thesis .
  qed
qed

lemma exec_miss:
  "m s (i, Map.empty) = [] \<Longrightarrow> i < length s \<Longrightarrow> exec m s i = exec m s (Suc i)"
  by (simp add: exec.simps [of m s i])

lemma exec_miss_end:
  "m s (i, Map.empty) = [] \<Longrightarrow> length s \<le> i \<Longrightarrow> exec m s i = None"
  by (simp add: exec.simps [of m s i] exec.simps [of m s "Suc i"])

lemma exec_hit:
  "m s (i, Map.empty) = y # ys \<Longrightarrow> i \<le> length s \<Longrightarrow> exec m s i = Some (i, fst y, snd y)"
  by (simp add: exec.simps [of m s i])

lemma slice_Cons: "i < idx \<Longrightarrow> i < length s \<Longrightarrow> slice s i idx = s ! i # slice s (Suc i) idx"
proof -
  assume a: "i < idx" "i < length s"
  then have "idx - i = Suc (idx - Suc i)" by simp
  with a show ?thesis
    unfolding slice_def by (simp add: Cons_nth_drop_Suc [symmetric])
qed

lemma slice_same [simp]: "slice s i i = []"
  by (simp add: slice_def)

lemma replace_from_miss:
  assumes "m s (i, Map.empty) = []" "i < length s"
  shows "replace_from m f s i i = s ! i # replace_from m f s (Suc i) (Suc i)"
proof (cases "exec m s (Suc i)")
  case None
  with assms show ?thesis
    by (simp add: replace_from.simps [of m f s i] replace_from.simps [of m f s "Suc i"]
        exec_miss Cons_nth_drop_Suc)
next
  case (Some r)
  obtain idx e c where r: "r = (idx, e, c)" by (cases r)
  from exec_bounds [of m s "Suc i" idx e c] Some r have "i < idx" by simp
  with assms Some r show ?thesis
    by (simp add: replace_from.simps [of m f s i] replace_from.simps [of m f s "Suc i"]
        exec_miss slice_Cons)
qed

lemma replace_from_end:
  assumes "m s (i, Map.empty) = []" "length s \<le> i"
  shows "replace_from m f s i i = []"
  using assms by (simp add: replace_from.simps [of m f s i] exec_miss_end)

lemma replace_from_hit:
  assumes "m s (i, Map.empty) = (e, c) # ys" "i \<le> length s" "i < e"
  shows "replace_from m f s i i =
         f (slice s i e) (group_text s c) @ replace_from m f s e e"
  using assms by (simp add: replace_from.simps [of m f s i] exec_hit)

lemma group_text_empty [simp]: "group_text s Map.empty = (\<lambda>n. None)"
  by (simp add: group_text_def fun_eq_iff)

lemma slice_one: "i < length s \<Longrightarrow> slice s i (Suc i) = [s ! i]"
  by (simp add: slice_def take_Suc_conv_app_nth Cons_nth_drop_Suc[symmetric])

lemma replace_cls_from:
  "i \<le> length s \<Longrightarrow> replace_from (cls P) f s i i =
     concat (map (\<lambda>c. if P c then f [c] (\<lambda>n. None) else [c]) (drop i s))"
proof (induction "length s - i" arbitrary: i)
  case 0
  then have "cls P s (i, Map.empty) = []" by (simp add: cls_def)
  with 0 show ?case by (simp add: replace_from_end)
next
  case (Suc k)
  then have lt: "i < length s" and k: "k = length s - Suc i" by simp_all
  have IH: "replace_from (cls P) f s (Suc i) (Suc i) =
     concat (map (\<lambda>c. if P c then f [c] (\<lambda>n. None) else [c]) (drop (Suc i) s))"
    using Suc.hyps(1) [OF k] lt by simp
  show ?case
  proof (cases "P (s ! i)")
    case True
    with lt have "cls P s (i, Map.empty) = [(Suc i, Map.empty)]" by (simp add: cls_def)
    from replace_from_hit [where m = "cls P" and s = s and i = i and f = f, OF this] lt True IH show ?thesis
      by (simp add: slice_one Cons_nth_drop_Suc [symmetric])
  next
    case False
    with lt have "cls P s (i, Map.empty) = []" by (simp add: cls_def)
    from replace_from_miss [where m = "cls P" and s = s and i = i and f = f, OF this lt] False IH lt show ?thesis
      by (simp add: Cons_nth_drop_Suc [symmetric])
  qed
qed

lemma escapeHTML_map: "escapeHTML s = concat (map esc s)"
  using replace_cls_from [of 0 s is_html_special "\<lambda>w g. entity w"]
  by (simp add: escapeHTML_def replace_all_def esc_def [abs_def])



lemma unescapeHTML_esc: "unescapeHTML (esc c @ r) = c # unescapeHTML r"
  by (auto simp: esc_def is_html_special_def entity_def str_def)

lemma unescapeHTML_concat_esc: "unescapeHTML (concat (map esc s)) = s"
  by (induction s) (simp_all add: unescapeHTML_esc del: unescapeHTML.simps(2))

lemma esc_no_markup: "set (esc c) \<inter> {0x3C, 0x3E, 0x22, 0x27} = {}"
  by (auto simp: esc_def is_html_special_def entity_def str_def)

lemma escapeHTML_no_markup: "set (escapeHTML s) \<inter> {0x3C, 0x3E, 0x22, 0x27} = {}"
  using esc_no_markup by (induction s) (auto simp: escapeHTML_map)

lemma length_esc: "1 \<le> length (esc c)"
  by (auto simp: esc_def is_html_special_def entity_def str_def)

lemma length_escapeHTML: "length s \<le> length (escapeHTML s)"
proof (induction s)
  case Nil
  show ?case by (simp add: escapeHTML_map)
next
  case (Cons c s)
  with length_esc [of c] show ?case by (simp add: escapeHTML_map)
qed


lemma slice_append_drop:
  "i \<le> idx \<Longrightarrow> idx \<le> e \<Longrightarrow> slice s i idx @ slice s idx e @ drop e s = drop i s"
proof -
  assume a: "i \<le> idx" "idx \<le> e"
  have 1: "slice s idx e @ drop e s = drop idx s"
    using a(2) unfolding slice_def
    by (metis append_take_drop_id drop_drop le_add_diff_inverse2)
  have 2: "slice s i idx @ drop idx s = drop i s"
    using a(1) unfolding slice_def
    by (metis append_take_drop_id drop_drop le_add_diff_inverse2)
  from 1 2 show ?thesis by simp
qed

lemma segment_loop_spans:
  "(case segment_loop s out i i of
      (out', l) \<Rightarrow> if l < length s then out' @ escapeHTML (drop l s) else out')
   = out @ concat (map (span_text \<circ> render_span) (spans s i))"
proof (induction s i arbitrary: out rule: spans.induct)
  case (1 s i)
  show ?case
  proof (cases "exec re s i")
    case None
    then show ?thesis
      by (simp add: segment_loop.simps [of s out i i] spans.simps [of s i])
  next
    case (Some r)
    obtain idx e c where r: "r = (idx, e, c)" by (cases r)
    from "1.IH" [OF Some [unfolded r] refl refl,
        of "out @ escapeHTML (slice s i idx) @ mathSeg (slice s idx e)"] Some r
    show ?thesis
      by (simp add: segment_loop.simps [of s out i i] spans.simps [of s i])
  qed
qed

lemma split_and_escape_spans:
  "split_and_escape s = concat (map (span_text \<circ> render_span) (spans s 0))"
  using segment_loop_spans [of s "[]" 0] by (simp add: split_and_escape_def)


lemma split_and_escape_no_match:
  "exec re s 0 = None \<Longrightarrow> split_and_escape s = escapeHTML s"
proof -
  assume a: "exec re s 0 = None"
  show ?thesis
  proof (cases "s = []")
    case True
    with a have "spans s 0 = []" by (subst spans.simps) simp
    with True show ?thesis by (simp add: split_and_escape_spans escapeHTML_map)
  next
    case False
    with a have "spans s 0 = [Plain s]" by (subst spans.simps) simp
    then show ?thesis by (simp add: split_and_escape_spans)
  qed
qed

lemma adv_opt: "adv k m \<Longrightarrow> adv 0 (opt m)"
  unfolding opt_def by (auto intro: adv_alt adv_eps adv_mono)

lemma adv_plus: "adv k m \<Longrightarrow> adv k (plus m)"
  unfolding plus_def using adv_seq [OF _ adv_star, of k m m] by simp


lemma adv_1: "adv k m \<Longrightarrow> 1 \<le> k \<Longrightarrow> adv 1 m"
  by (rule adv_mono)

lemma adv_seq_left: "adv j m1 \<Longrightarrow> adv k m2 \<Longrightarrow> adv j (seq m1 m2)"
  using adv_seq [of j m1 k m2] by (auto intro: adv_mono)

lemma adv_seqs_lit: "adv 0 (seqs ms) \<Longrightarrow> adv (length w) (seqs (lit w # ms))"
  using adv_seq [OF adv_lit, of 0 "seqs ms" w] by simp




lemma replace_id:
  assumes a: "adv 1 m"
    and f: "\<And>i e c ys. m s (i, Map.empty) = (e, c) # ys \<Longrightarrow>
              f (slice s i e) (group_text s c) = slice s i e"
  shows "i \<le> length s \<Longrightarrow> replace_from m f s i i = drop i s"
proof (induction "length s - i" arbitrary: i rule: less_induct)
  case less
  show ?case
  proof (cases "m s (i, Map.empty)")
    case Nil
    show ?thesis
    proof (cases "i < length s")
      case True
      from less.hyps [of "Suc i"] True have "replace_from m f s (Suc i) (Suc i) = drop (Suc i) s"
        by simp
      with replace_from_miss [where m = m and s = s and i = i and f = f, OF Nil True] True
      show ?thesis by (simp add: Cons_nth_drop_Suc)
    next
      case False
      with replace_from_end [where m = m and s = s and i = i and f = f, OF Nil] less.prems
      show ?thesis by simp
    qed
  next
    case (Cons y ys)
    obtain e c where y: "y = (e, c)" by (cases y)
    from advD [OF a, of y s "(i, Map.empty)"] Cons y less.prems
    have e: "i < e" "e \<le> length s" by simp_all
    from less.hyps [of e] e less.prems have IH: "replace_from m f s e e = drop e s" by simp
    from Cons y have my: "m s (i, Map.empty) = (e, c) # ys" by simp
    from replace_from_hit [where m = m and s = s and i = i and f = f, OF my less.prems e(1)]
      f [OF my] IH slice_append_drop [of i i e s] e
    show ?thesis by simp
  qed
qed

lemma replace_all_id:
  assumes "adv 1 m"
    and "\<And>i e c ys. m s (i, Map.empty) = (e, c) # ys \<Longrightarrow>
              f (slice s i e) (group_text s c) = slice s i e"
  shows "replace_all m f s = s"
proof -
  have "replace_from m f s 0 0 = drop 0 s"
    by (rule replace_id [where m = m and f = f and s = s and i = 0])
      (use assms in simp_all)
  then show ?thesis by (simp add: replace_all_def)
qed

lemma lit_Cons: "lit w inp x = y # ys \<Longrightarrow> slice inp (fst x) (fst y) = w"
  by (auto simp: lit_def split: if_splits)

lemma replace_all_lit_self: "w \<noteq> [] \<Longrightarrow> replace_all (lit w) (const w) s = s"
proof (rule replace_all_id)
  assume "w \<noteq> []"
  then have "1 \<le> length w" by (cases w) simp_all
  with adv_lit [of w] show "adv 1 (lit w)" by (rule adv_mono)
next
  fix i e c ys
  assume "lit w s (i, Map.empty) = (e, c) # ys"
  from lit_Cons [OF this] show "const w (slice s i e) (group_text s c) = slice s i e"
    by (simp add: const_def)
qed










lemma star_cls_unfold:
  "star (cls P) inp (i, c) =
     (if i < length inp \<and> P (inp ! i) then star (cls P) inp (Suc i, c) @ [(i, c)] else [(i, c)])"
proof -
  have "cls P inp (i, c) = (if i < length inp \<and> P (inp ! i) then [(Suc i, c)] else [])"
    by (simp add: cls_def)
  then show ?thesis
    by (subst star.simps) auto
qed

lemma star_cls:
  "star (cls P) inp (i, c) =
     map (\<lambda>j. (j, c)) (rev [i ..< Suc (i + length (takeWhile P (drop i inp)))])"
proof (induction "length inp - i" arbitrary: i)
  case 0
  then have "drop i inp = []" by simp
  with 0 show ?case
    by (simp add: star_cls_unfold [of P inp i])
next
  case (Suc k)
  then have lt: "i < length inp" and k: "k = length inp - Suc i" by simp_all
  have d: "drop i inp = inp ! i # drop (Suc i) inp"
    using lt by (simp add: Cons_nth_drop_Suc)
  show ?case
  proof (cases "P (inp ! i)")
    case True
    have u: "[i ..< Suc (Suc (i + n))] = i # [Suc i ..< Suc (Suc (i + n))]" for n
      by (simp add: upt_conv_Cons)
    from Suc.hyps(1) [OF k] True lt show ?thesis
      by (simp add: star_cls_unfold [of P inp i] d u del: upt_Suc)
  next
    case False
    with lt show ?thesis
      by (simp add: star_cls_unfold [of P inp i] d)
  qed
qed

lemma seq_eps [simp]: "seq m eps = m"
proof -
  have "concat (map (eps inp) ys) = ys" for inp and ys :: "mstate list"
    by (induction ys) (simp_all add: eps_def)
  then show ?thesis
    by (simp add: seq_def fun_eq_iff)
qed

lemma concat_map_nonempty: "concat (map f xs) \<noteq> [] \<longleftrightarrow> (\<exists>x\<in>set xs. f x \<noteq> [])"
  by (induction xs) auto

lemma test_iff: "test m s \<longleftrightarrow> (\<exists>i\<le>length s. m s (i, Map.empty) \<noteq> [])"
proof
  assume t: "test m s"
  show "\<exists>i\<le>length s. m s (i, Map.empty) \<noteq> []"
  proof (cases "exec m s 0")
    case None
    with t show ?thesis by (simp add: test_def)
  next
    case (Some r)
    obtain idx e c where "r = (idx, e, c)" by (cases r)
    with Some have "exec m s 0 = Some (idx, e, c)" by simp
    from exec_SomeD [OF this] show ?thesis by auto
  qed
next
  assume "\<exists>i\<le>length s. m s (i, Map.empty) \<noteq> []"
  then obtain i where i: "i \<le> length s" "m s (i, Map.empty) \<noteq> []" by blast
  show "test m s"
  proof (rule ccontr)
    assume "\<not> test m s"
    then have "exec m s 0 = None" by (simp only: test_def not_not)
    from exec_NoneD [OF this _ i(1)] i(2) show False by simp
  qed
qed

lemma re_allowed_at:
  "re_allowed s (i, c) \<noteq> [] \<longleftrightarrow> i = 0 \<and> list_all allowed s"
proof (cases "i = 0")
  case False
  then show ?thesis by (simp add: re_allowed_def seq_def bol_def)
next
  case True
  let ?n = "length (takeWhile allowed s)"
  have a: "re_allowed s (0, c) =
          concat (map (eol s) (map (\<lambda>j. (j, c)) (rev [0 ..< Suc ?n])))"
    by (simp add: re_allowed_def del: upt_Suc) (simp add: seq_def bol_def star_cls del: upt_Suc)
  have b: "concat (map (eol s) (map (\<lambda>j. (j, c)) js)) \<noteq> [] \<longleftrightarrow> length s \<in> set js"
    for js
    by (induction js) (auto simp: eol_def)
  have "re_allowed s (0, c) \<noteq> [] \<longleftrightarrow> length s \<in> set (rev [0 ..< Suc ?n])"
    unfolding a by (rule b)
  also have "\<dots> \<longleftrightarrow> ?n = length s"
    using length_takeWhile_le [of allowed s] by auto
  also have "\<dots> \<longleftrightarrow> list_all allowed s"
    by (metis list_all_iff takeWhile_eq_all_conv length_takeWhile_le takeWhile_eq_take take_all)
  finally show ?thesis using True by simp
qed

lemma test_re_allowed: "test re_allowed s \<longleftrightarrow> list_all allowed s"
  by (auto simp: test_iff re_allowed_at)

text \<open>The two \<^verbatim>\<open>\hspace\<close> patterns match where the scanners of the specification rewrite.\<close>

lemma slice_prefix: "slice inp i (i + length w) = w \<longleftrightarrow> prefix w (drop i inp)"
proof -
  have "take (length w) xs = w \<longleftrightarrow> prefix w xs" for xs :: jsstr
  proof
    assume "take (length w) xs = w"
    then have "xs = w @ drop (length w) xs" by (metis append_take_drop_id)
    then show "prefix w xs" unfolding prefix_def by blast
  next
    assume "prefix w xs"
    then show "take (length w) xs = w" by (auto simp: prefix_def)
  qed
  then show ?thesis by (simp add: slice_def)
qed

lemma lit_at:
  "lit w inp (i, c) = (if prefix w (drop i inp) then [(i + length w, c)] else [])"
  using slice_prefix [of inp i w] by (simp add: lit_def)

lemma seq_at: "seq m1 m2 inp x = concat (map (m2 inp) (m1 inp x))"
  by (simp add: seq_def)

lemma seq_lit_at:
  "seq (lit w) m inp (i, c) = (if prefix w (drop i inp) then m inp (i + length w, c) else [])"
  by (simp add: seq_at lit_at)

lemma cls_at:
  "cls P inp (i, c) = (if i < length inp \<and> P (inp ! i) then [(Suc i, c)] else [])"
  by (simp add: cls_def)

lemma seq_cls_at:
  "seq (cls P) m inp (i, c) = (if i < length inp \<and> P (inp ! i) then m inp (Suc i, c) else [])"
  by (auto simp: seq_at cls_at)

lemma concat_map_concat': "concat (map f (concat xss)) = concat (map (\<lambda>xs. concat (map f xs)) xss)"
  by (induction xss) simp_all

lemma seq_assoc: "seq (seq a b) m = seq a (seq b m)"
proof -
  have "seq b m inp = (\<lambda>y. concat (map (m inp) (b inp y)))" for inp
    by (simp add: fun_eq_iff seq_at)
  then have "seq (seq a b) m inp x = seq a (seq b m) inp x" for inp x
    by (simp add: seq_at concat_map_concat' comp_def)
  then show ?thesis by (simp add: fun_eq_iff)
qed

lemma concat_map_empty: "(\<And>x. x \<in> set xs \<Longrightarrow> f x = []) \<Longrightarrow> concat (map f xs) = []"
  by (induction xs) simp_all

lemma takeWhile_run:
  assumes "i \<le> j" "j < i + length (takeWhile P (drop i inp))"
  shows "j < length inp \<and> P (inp ! j)"
proof -
  let ?t = "takeWhile P (drop i inp)"
  from assms have k: "j - i < length ?t" by simp
  have le: "length ?t \<le> length (drop i inp)" by (rule length_takeWhile_le)
  with k assms have j: "j < length inp" by simp
  from k have "?t ! (j - i) \<in> set ?t" by (rule nth_mem)
  then have "P (?t ! (j - i))" by (rule set_takeWhileD [THEN conjunct2])
  moreover from k have "?t ! (j - i) = drop i inp ! (j - i)" by (rule takeWhile_nth)
  moreover from assms j have "drop i inp ! (j - i) = inp ! j" by simp
  ultimately show ?thesis using j by simp
qed

lemma seq_star_cls_at:
  assumes g: "\<And>j. m inp (j, c) \<noteq> [] \<Longrightarrow> j < length inp \<and> \<not> P (inp ! j)"
  shows "seq (star (cls P)) m inp (i, c) = m inp (i + length (takeWhile P (drop i inp)), c)"
proof -
  let ?n = "length (takeWhile P (drop i inp))"
  have e: "m inp (j, c) = []" if "j \<in> set [i ..< i + ?n]" for j
  proof (rule ccontr)
    assume "m inp (j, c) \<noteq> []"
    from g [OF this] takeWhile_run [of i j P inp] that show False by simp
  qed
  have "seq (star (cls P)) m inp (i, c) =
          concat (map (\<lambda>j. m inp (j, c)) (rev [i ..< Suc (i + ?n)]))"
    by (simp add: seq_at star_cls comp_def del: upt_Suc)
  also have "[i ..< Suc (i + ?n)] = [i ..< i + ?n] @ [i + ?n]"
    by simp
  also have "concat (map (\<lambda>j. m inp (j, c)) (rev ([i ..< i + ?n] @ [i + ?n]))) =
               m inp (i + ?n, c) @ concat (map (\<lambda>j. m inp (j, c)) (rev [i ..< i + ?n]))"
    by simp
  also have "concat (map (\<lambda>j. m inp (j, c)) (rev [i ..< i + ?n])) = []"
    by (rule concat_map_empty) (use e in simp)
  finally show ?thesis by simp
qed

lemma drop_run: "drop (i + length (takeWhile P (drop i inp))) inp = dropWhile P (drop i inp)"
  by (simp add: dropWhile_eq_drop add.commute)

lemma prefix_single: "prefix [b] (drop j inp) \<longleftrightarrow> j < length inp \<and> inp ! j = b"
proof (cases "j < length inp")
  case True
  then show ?thesis by (auto simp: Cons_nth_drop_Suc [symmetric])
next
  case False
  then show ?thesis by simp
qed

lemma seq_lit_single_guard:
  "\<not> P b \<Longrightarrow> seq (lit [b]) m inp (j, c) \<noteq> [] \<Longrightarrow> j < length inp \<and> \<not> P (inp ! j)"
  by (auto simp: seq_lit_at prefix_single split: if_splits)

lemma lit_single_guard:
  "\<not> P b \<Longrightarrow> lit [b] inp (j, c) \<noteq> [] \<Longrightarrow> j < length inp \<and> \<not> P (inp ! j)"
  by (auto simp: lit_at prefix_single split: if_splits)

lemma not_space_brace: "\<not> is_space (of_char CHR ''{'')" "\<not> is_space (of_char CHR ''}'')"
  by (simp_all add: is_space_def)

lemma str_single: "str [ch] = [of_char ch]"
  by (simp add: str_def)

lemma length_hspace: "length (bs ''hspace'') = 7"
  by (simp add: bs_def str_def)

lemma re_hspace_empty_at:
  "re_hspace_empty s (i, c) =
     (case empty_hspace (drop i s) of Some r \<Rightarrow> [(length s - length r, c)] | None \<Rightarrow> [])"
proof (cases "prefix (bs ''hspace'') (drop i s)")
  case False
  then show ?thesis
    by (simp add: re_hspace_empty_def seq_lit_at empty_hspace_def)
next
  case True
  define ob where "ob = (of_char CHR ''{'' :: nat)"
  define cb where "cb = (of_char CHR ''}'' :: nat)"
  have nob: "\<not> is_space ob" and ncb: "\<not> is_space cb"
    unfolding ob_def cb_def by (rule not_space_brace)+
  define j1 where "j1 = i + 7 + length (takeWhile is_space (drop (i + 7) s))"
  define t1 where "t1 = dropWhile is_space (drop 7 (drop i s))"
  have d1: "drop j1 s = t1"
    unfolding j1_def t1_def by (simp add: drop_run add.commute)
  define j2 where "j2 = Suc j1 + length (takeWhile is_space (drop (Suc j1) s))"
  define t2 where "t2 = dropWhile is_space (drop 1 t1)"
  have d2: "drop j2 s = t2"
    unfolding j2_def t2_def d1 [symmetric] using drop_run [of "Suc j1" is_space s] by simp
  let ?M4 = "lit [cb]"
  let ?M3 = "seq (star (cls is_space)) ?M4"
  let ?M2 = "seq (lit [ob]) ?M3"
  let ?M1 = "seq (star (cls is_space)) ?M2"
  have re: "re_hspace_empty = seq (lit (bs ''hspace'')) ?M1"
    by (simp add: re_hspace_empty_def str_single ob_def cb_def)
  have 1: "re_hspace_empty s (i, c) = ?M1 s (i + 7, c)"
    using True by (simp only: re seq_lit_at length_hspace if_True)
  have 2: "?M1 s (i + 7, c) = ?M2 s (j1, c)"
    unfolding j1_def
    by (rule seq_star_cls_at) (rule seq_lit_single_guard [where P = is_space and b = ob, OF nob])
  have 3: "?M2 s (j1, c) = (if prefix [ob] t1 then ?M3 s (Suc j1, c) else [])"
    by (simp add: seq_lit_at d1)
  have 4: "?M3 s (Suc j1, c) = ?M4 s (j2, c)"
    unfolding j2_def
    by (rule seq_star_cls_at) (rule lit_single_guard [where P = is_space and b = cb, OF ncb])
  have 5: "?M4 s (j2, c) = (if prefix [cb] t2 then [(Suc j2, c)] else [])"
    by (simp add: lit_at d2)
  have e: "empty_hspace (drop i s) =
             (if prefix [ob] t1 then (if prefix [cb] t2 then Some (drop 1 t2) else None) else None)"
    using True by (simp add: empty_hspace_def Let_def t1_def t2_def str_single ob_def cb_def)
  have l: "length s - length (drop 1 t2) = Suc j2" if "prefix [cb] t2"
  proof -
    from that have "t2 \<noteq> []" by auto
    with d2 have "j2 < length s" by (metis drop_eq_Nil not_le)
    moreover have "drop 1 t2 = drop (Suc j2) s" unfolding d2 [symmetric] by simp
    ultimately show ?thesis by simp
  qed
  have m: "re_hspace_empty s (i, c) =
             (if prefix [ob] t1 then (if prefix [cb] t2 then [(Suc j2, c)] else []) else [])"
    by (simp only: 1 2 3 4 5)
  show ?thesis
  proof (cases "prefix [ob] t1 \<and> prefix [cb] t2")
    case True
    with l have "length s - length (drop 1 t2) = Suc j2" by blast
    with True show ?thesis by (simp only: m e if_True option.case)
  next
    case False
    then have "re_hspace_empty s (i, c) = []" "empty_hspace (drop i s) = None"
      unfolding m e by (simp_all split: if_splits)
    then show ?thesis by (simp only: option.case)
  qed
qed

lemma dropWhile_ne_prefix:
  "prefix [b] (dropWhile (\<lambda>c. c \<noteq> b) xs) \<longleftrightarrow> dropWhile (\<lambda>c. c \<noteq> b) xs \<noteq> []"
  by (induction xs) auto

lemma brace_group_at:
  "seqs [star (cls is_space), lit (str ''{''), plus (cls (\<lambda>c. c \<noteq> of_char CHR ''}'')), lit (str ''}'')]
     s (i, c) \<noteq> [] \<longleftrightarrow> brace_group (drop i s)"
proof -
  define ob where "ob = (of_char CHR ''{'' :: nat)"
  define cb where "cb = (of_char CHR ''}'' :: nat)"
  have nob: "\<not> is_space ob"
    unfolding ob_def by (rule not_space_brace)
  let ?Q = "\<lambda>c. c \<noteq> cb"
  define j1 where "j1 = i + length (takeWhile is_space (drop i s))"
  define t1 where "t1 = dropWhile is_space (drop i s)"
  have d1: "drop j1 s = t1"
    unfolding j1_def t1_def by (simp add: drop_run)
  define u where "u = drop 1 t1"
  have du: "drop (Suc j1) s = u"
    unfolding u_def d1 [symmetric] by simp
  define j2 where "j2 = Suc (Suc j1) + length (takeWhile ?Q (drop (Suc (Suc j1)) s))"
  let ?M3 = "seq (star (cls ?Q)) (lit [cb])"
  let ?M2 = "seq (cls ?Q) ?M3"
  let ?M1 = "seq (lit [ob]) ?M2"
  have L: "seqs [star (cls is_space), lit (str ''{''), plus (cls (\<lambda>c. c \<noteq> of_char CHR ''}'')),
             lit (str ''}'')] = seq (star (cls is_space)) ?M1"
    by (simp add: str_single ob_def cb_def plus_def seq_assoc)
  have 1: "seq (star (cls is_space)) ?M1 s (i, c) = ?M1 s (j1, c)"
    unfolding j1_def
    by (rule seq_star_cls_at) (rule seq_lit_single_guard [where P = is_space and b = ob, OF nob])
  have 2: "?M1 s (j1, c) = (if prefix [ob] t1 then ?M2 s (Suc j1, c) else [])"
    by (simp add: seq_lit_at d1)
  have 3: "?M2 s (Suc j1, c) =
             (if Suc j1 < length s \<and> ?Q (s ! Suc j1) then ?M3 s (Suc (Suc j1), c) else [])"
    by (simp add: seq_cls_at)
  have 4: "?M3 s (Suc (Suc j1), c) = lit [cb] s (j2, c)"
    unfolding j2_def
    by (rule seq_star_cls_at) (rule lit_single_guard [where P = "\<lambda>c. c \<noteq> cb" and b = cb], simp)
  have 5: "lit [cb] s (j2, c) \<noteq> [] \<longleftrightarrow> prefix [cb] (drop j2 s)"
    by (simp add: lit_at)
  have u1: "Suc j1 < length s \<and> ?Q (s ! Suc j1) \<longleftrightarrow> takeWhile ?Q u \<noteq> []"
  proof (cases "Suc j1 < length s")
    case True
    then have "u = s ! Suc j1 # drop (Suc (Suc j1)) s"
      unfolding du [symmetric] by (simp add: Cons_nth_drop_Suc)
    with True show ?thesis by simp
  next
    case False
    then have "u = []" unfolding du [symmetric] by simp
    with False show ?thesis by simp
  qed
  have u2: "prefix [cb] (drop j2 s) \<longleftrightarrow> dropWhile ?Q u \<noteq> []"
    if "Suc j1 < length s" "?Q (s ! Suc j1)"
  proof -
    from that have "u = s ! Suc j1 # drop (Suc (Suc j1)) s"
      unfolding du [symmetric] by (simp add: Cons_nth_drop_Suc)
    with that have "dropWhile ?Q u = dropWhile ?Q (drop (Suc (Suc j1)) s)" by simp
    also have "\<dots> = drop j2 s"
      unfolding j2_def using drop_run [of "Suc (Suc j1)" ?Q s] by simp
    finally have eq: "dropWhile ?Q u = drop j2 s" .
    show ?thesis
      unfolding eq [symmetric] by (rule dropWhile_ne_prefix)
  qed
  have "brace_group (drop i s) \<longleftrightarrow>
          prefix [ob] t1 \<and> takeWhile ?Q u \<noteq> [] \<and> dropWhile ?Q u \<noteq> []"
    by (simp add: brace_group_def Let_def t1_def u_def str_single ob_def cb_def)
  then have b: "brace_group (drop i s) \<longleftrightarrow>
          prefix [ob] t1 \<and> (Suc j1 < length s \<and> ?Q (s ! Suc j1)) \<and> dropWhile ?Q u \<noteq> []"
    by (simp only: u1)
  have m: "seqs [star (cls is_space), lit (str ''{''), plus (cls (\<lambda>c. c \<noteq> of_char CHR ''}'')),
             lit (str ''}'')] s (i, c) =
           (if prefix [ob] t1 then
              (if Suc j1 < length s \<and> ?Q (s ! Suc j1) then lit [cb] s (j2, c) else [])
            else [])"
    by (simp only: L 1 2 3 4)
  show ?thesis
  proof (cases "prefix [ob] t1 \<and> Suc j1 < length s \<and> ?Q (s ! Suc j1)")
    case True
    then have "prefix [cb] (drop j2 s) \<longleftrightarrow> dropWhile ?Q u \<noteq> []"
      using u2 by blast
    with True 5 show ?thesis unfolding m b by simp
  next
    case False
    then show ?thesis unfolding m b by auto
  qed
qed

lemma not_lookahead_at: "not_lookahead m inp x = (if m inp x = [] then [x] else [])"
  by (simp add: not_lookahead_def split: list.splits)

lemma re_hspace_bare_at:
  "re_hspace_bare s (i, c) = (if bare_hspace (drop i s) then [(i + 7, c)] else [])"
proof -
  let ?L = "seqs [star (cls is_space), lit (str ''{''), plus (cls (\<lambda>c. c \<noteq> of_char CHR ''}'')),
                  lit (str ''}'')]"
  have d: "drop 7 (drop i s) = drop (i + 7) s"
    by (simp add: add.commute)
  have "re_hspace_bare s (i, c) =
          (if prefix (bs ''hspace'') (drop i s) then not_lookahead ?L s (i + 7, c) else [])"
    unfolding re_hspace_bare_def by (simp only: seq_lit_at length_hspace)
  also have "not_lookahead ?L s (i + 7, c) = (if ?L s (i + 7, c) = [] then [(i + 7, c)] else [])"
    by (rule not_lookahead_at)
  also have "?L s (i + 7, c) = [] \<longleftrightarrow> \<not> brace_group (drop 7 (drop i s))"
    unfolding d using brace_group_at [of s "i + 7" c] by blast
  finally show ?thesis
    by (simp only: bare_hspace_def) auto
qed

lemma suffix_drop_length: "suffix r s \<Longrightarrow> drop (length s - length r) s = r"
  by (auto simp: suffix_def)

lemma empty_hspace_Nil: "empty_hspace [] = None"
  by (simp add: empty_hspace_def bs_def)

lemma bare_hspace_Nil: "\<not> bare_hspace []"
  by (simp add: bare_hspace_def bs_def)

lemma fix_empty_replace:
  "i \<le> length s \<Longrightarrow>
     replace_from re_hspace_empty (const (bs '','')) s i i = fix_empty (drop i s)"
proof (induction "length s - i" arbitrary: i rule: less_induct)
  case less
  let ?f = "const (bs '','')"
  show ?case
  proof (cases "empty_hspace (drop i s)")
    case None
    then have m: "re_hspace_empty s (i, Map.empty) = []"
      by (simp add: re_hspace_empty_at)
    show ?thesis
    proof (cases "i < length s")
      case True
      then have d: "drop i s = s ! i # drop (Suc i) s"
        by (simp add: Cons_nth_drop_Suc)
      from less.hyps [of "Suc i"] True
      have "replace_from re_hspace_empty ?f s (Suc i) (Suc i) = fix_empty (drop (Suc i) s)"
        by simp
      with replace_from_miss [where m = re_hspace_empty and s = s and i = i and f = ?f, OF m True]
        None d
      show ?thesis by simp
    next
      case False
      with replace_from_end [where m = re_hspace_empty and s = s and i = i and f = ?f, OF m]
      show ?thesis by simp
    qed
  next
    case (Some r)
    from empty_hspace_suffix [OF Some] have sr: "suffix r (drop i s)" 
      and lr: "length r < length s - i" by simp_all
    define e where "e = length s - length r"
    from lr have e: "i < e" "e \<le> length s" by (simp_all add: e_def)
    from sr have "suffix r s"
      by (meson suffix_drop suffix_order.trans)
    from suffix_drop_length [OF this] have de: "drop e s = r" by (simp add: e_def)
    from Some have m: "re_hspace_empty s (i, Map.empty) = (e, Map.empty) # []"
      by (simp add: re_hspace_empty_at e_def)
    from lr have "i < length s" by simp
    then have d: "drop i s = s ! i # drop (Suc i) s"
      by (simp add: Cons_nth_drop_Suc)
    from less.hyps [of e] e less.prems
    have IH: "replace_from re_hspace_empty ?f s e e = fix_empty (drop e s)" by simp
    have "fix_empty (drop i s) = bs '','' @ fix_empty r"
      using Some unfolding d by simp
    with replace_from_hit [where m = re_hspace_empty and s = s and i = i and f = ?f,
        OF m less.prems e(1)] IH de
    show ?thesis by (simp add: const_def)
  qed
qed

lemma fix_bare_replace:
  "i \<le> length s \<Longrightarrow>
     replace_from re_hspace_bare (const (bs '','')) s i i = fix_bare (drop i s)"
proof (induction "length s - i" arbitrary: i rule: less_induct)
  case less
  let ?f = "const (bs '','')"
  show ?case
  proof (cases "bare_hspace (drop i s)")
    case False
    then have m: "re_hspace_bare s (i, Map.empty) = []"
      by (simp add: re_hspace_bare_at)
    show ?thesis
    proof (cases "i < length s")
      case True
      then have d: "drop i s = s ! i # drop (Suc i) s"
        by (simp add: Cons_nth_drop_Suc)
      from less.hyps [of "Suc i"] True
      have "replace_from re_hspace_bare ?f s (Suc i) (Suc i) = fix_bare (drop (Suc i) s)"
        by simp
      with replace_from_miss [where m = re_hspace_bare and s = s and i = i and f = ?f, OF m True]
        False d
      show ?thesis by simp
    next
      case False
      with replace_from_end [where m = re_hspace_bare and s = s and i = i and f = ?f, OF m]
      show ?thesis by simp
    qed
  next
    case True
    then have "prefix (bs ''hspace'') (drop i s)" by (simp add: bare_hspace_def)
    then have "length (bs ''hspace'') \<le> length (drop i s)" by (rule prefix_length_le)
    then have l: "i + 7 \<le> length s" by (simp add: length_hspace)
    then have d: "drop i s = s ! i # drop (Suc i) s"
      by (simp add: Cons_nth_drop_Suc)
    from True have m: "re_hspace_bare s (i, Map.empty) = (i + 7, Map.empty) # []"
      by (simp add: re_hspace_bare_at)
    from less.hyps [of "i + 7"] l
    have IH: "replace_from re_hspace_bare ?f s (i + 7) (i + 7) = fix_bare (drop (i + 7) s)"
      by simp
    have "drop 6 (drop (Suc i) s) = drop (i + 7) s" by (simp add: add.commute)
    with True have "fix_bare (drop i s) = bs '','' @ fix_bare (drop (i + 7) s)"
      unfolding d by simp
    with replace_from_hit [where m = re_hspace_bare and s = s and i = i and f = ?f,
        OF m less.prems] IH
    show ?thesis by (simp add: const_def)
  qed
qed

lemma mathSeg_scan: "mathSeg m0 = fix_bare (fix_empty m0)"
proof -
  have 1: "replace_all re_hspace_empty (const (bs '','')) m0 = fix_empty m0"
    using fix_empty_replace [of 0 m0] by (simp add: replace_all_def)
  have 2: "replace_all re_hspace_bare (const (bs '','')) t = fix_bare t" for t
    using fix_bare_replace [of 0 t] by (simp add: replace_all_def)
  show ?thesis
    by (simp add: mathSeg_def 1 2 replace_all_lit_self str_def)
qed

text \<open>Rounding in \<open>formatConfidence\<close>.\<close>

lemma Math_round_nearest:
  "\<exists>n::int. Math_round (Finite y) = Finite (of_int n) \<and> \<bar>of_int n - y\<bar> \<le> 1 / 2"
proof -
  have "\<bar>of_int \<lfloor>y + 1 / 2\<rfloor> - y\<bar> \<le> 1 / 2"
    by linarith
  then show ?thesis by (auto simp: Math_round_def)
qed

lemma round_873:
  fixes d p :: rat
  assumes d: "\<bar>d - 873 / 1000\<bar> \<le> 873 / 1000 / 2 ^ 53"
    and p: "\<bar>p - 100 * d\<bar> \<le> \<bar>100 * d\<bar> / 2 ^ 53"
  shows "\<lfloor>p + 1 / 2\<rfloor> = 87"
proof -
  have u: "(1::rat) / 2 ^ 53 \<le> 1 / 1000" by simp
  have "(873::rat) / 1000 / 2 ^ 53 = 873 / 1000 * (1 / 2 ^ 53)" by simp
  also have "\<dots> \<le> 873 / 1000 * (1 / 1000)"
    by (rule mult_left_mono [OF u]) simp
  finally have d': "\<bar>d - 873 / 1000\<bar> \<le> 873 / 1000 * (1 / 1000)"
    using d by linarith
  then have dpos: "0 < d" by linarith
  have "\<bar>100 * d\<bar> / 2 ^ 53 = \<bar>100 * d\<bar> * (1 / 2 ^ 53)" by simp
  also have "\<dots> \<le> \<bar>100 * d\<bar> * (1 / 1000)"
    by (rule mult_left_mono [OF u]) simp
  finally have "\<bar>p - 100 * d\<bar> \<le> \<bar>100 * d\<bar> * (1 / 1000)"
    using p by linarith
  with dpos have p': "\<bar>p - 100 * d\<bar> \<le> d / 10" by simp
  from d' p' have "87 \<le> p + 1 / 2" "p + 1 / 2 < 88" by linarith+
  then show ?thesis by linarith
qed

section \<open>Evaluation\<close>

text \<open>
  Unfolding equations for concrete inputs: the tuple patterns of the definitions are
  replaced by projections, so that a branch is rewritten only once its match is known.
\<close>

lemma segment_loop_eval:
  "segment_loop s out l i =
     (case exec re s i of
        None \<Rightarrow> (out, l)
      | Some r \<Rightarrow>
          segment_loop s
            (out @ escapeHTML (slice s l (fst r)) @ mathSeg (slice s (fst r) (fst (snd r))))
            (fst (snd r)) (fst (snd r)))"
  by (subst segment_loop.simps) (simp split: option.splits prod.splits)

lemma replace_from_eval:
  "replace_from m f s i pos =
     (case exec m s i of
        None \<Rightarrow> drop pos s
      | Some r \<Rightarrow>
          slice s pos (fst r) @ f (slice s (fst r) (fst (snd r))) (group_text s (snd (snd r)))
            @ replace_from m f s
                (if fst (snd r) \<le> fst r then Suc (fst r) else fst (snd r)) (fst (snd r)))"
  by (subst replace_from.simps) (simp split: option.splits prod.splits)

lemma split_and_escape_eval:
  "split_and_escape s =
     (if snd (segment_loop s [] 0 0) < length s
      then fst (segment_loop s [] 0 0) @ escapeHTML (drop (snd (segment_loop s [] 0 0)) s)
      else fst (segment_loop s [] 0 0))"
  by (simp add: split_and_escape_def split: prod.splits)

lemma backref_eval:
  "backref n inp x =
     (case snd x n of
        None \<Rightarrow> [x]
      | Some ab \<Rightarrow> lit (slice inp (fst ab) (snd ab)) inp x)"
  by (simp add: backref_def split: option.splits prod.splits)

lemmas regex_eval = eps_def cls_def lit_def seq_def alt_def opt_def plus_def two_or_more_def
  group_def backref_eval lookahead_def not_lookahead_def star.simps star_lazy.simps
  exec.simps replace_from_eval replace_all_def const_def group_text_def slice_def
  str_def bs_def any_char_def

lemmas pld_eval = processLatexForDisplay_def restore_def split_and_escape_eval segment_loop_eval
  protect_def normalize_def clean_def mathSeg_def escapeHTML_def
  re_def re_br_def re_env_def re_ref_def re_begin_list_def re_end_list_def re_item_def
  re_tilde_def re_spaces_def re_hspace_empty_def re_hspace_bare_def SENTINEL_def br_bullet_def
  env_to_brackets_def trim_def is_space_def is_html_special_def entity_def

lemmas pc_eval = parseCandidates_def try_catch_def return_empty_def test_def re_allowed_def allowed_def
  lenient_def re_element_def re_value_def re_key_def re_word_def quoted_def grp_def JSON_stringify_def
  quote_unit_def is_lead_def is_trail_def unicode_escape_def hex_digit_def word_boundary_def is_word_def
  bol_def eol_def sq_def dq_def trim_def is_space_def function_source_def

lemma try_catch_not_Throws: "h \<noteq> Throws \<Longrightarrow> try_catch b h \<noteq> Throws"
  by (cases b) (simp_all add: try_catch_def)

lemma parseCandidates_not_Throws: "parseCandidates rt raw \<noteq> Throws"
proof (cases raw)
  case (String s)
  have "return_empty \<noteq> Throws"
    by (simp add: return_empty_def)
  then have "try_catch a (try_catch b (try_catch c return_empty)) \<noteq> Throws"
    for a b c :: "jsval outcome"
    by (intro try_catch_not_Throws)
  with String show ?thesis
    by (simp add: parseCandidates_def Let_def)
qed (simp_all add: parseCandidates_def)

lemma lenient_python: "lenient python_text = json_text"
  by (simp add: python_text_def json_text_def pc_eval regex_eval)

lemma trim_python: "trim python_text = python_text"
  by (simp add: python_text_def pc_eval str_def)

section \<open>Claims about processLatexForDisplay\<close>

text \<open>
  C1. Inside a matched math span every literal \<open><\<close> and \<open>>\<close> is to be replaced by its
  entity, while \<open>&\<close> and quotes stay. The source replaces \<open><\<close> by \<open><\<close> and \<open>>\<close> by
  \<open>>\<close>, so the span \<open>$a<b>c&d$\<close> comes out unchanged: the angle brackets are still
  literal.
\<close>

theorem math_angle_brackets_stay_literal:
  "processLatexForDisplay (Some (str ''$a<b>c&d$'')) = str ''$a<b>c&d$''"
  by (simp add: pld_eval regex_eval)

text \<open>
  C3. The sentinel is to be safe against user content. A raw text that is the sentinel
  itself comes out as a line break, although no \<^verbatim>\<open>\item\<close> was rewritten.
\<close>

theorem sentinel_in_raw_text_becomes_br:
  "processLatexForDisplay (Some (str ''a__BR_SENTINEL__b'')) = str ''a<br>b''"
  by (simp add: pld_eval regex_eval)

text \<open>
  C7. The equation environment with a label is normalized to \<^verbatim>\<open>\[E=mc^2\]\<close>, the
  delimiter pattern matches this string from its first to its last code unit and nowhere
  after, and the output is the same string, nothing in it escaped.
\<close>

theorem equation_example:
  "normalize (bs ''begin{equation}E=mc^2'' @ bs ''label{eq:1}'' @ bs ''end{equation}'')
     = bs ''[E=mc^2'' @ bs '']'' \<and>
   map_option (\<lambda>r. (fst r, fst (snd r))) (exec re (protect (bs ''[E=mc^2'' @ bs '']'')) 0)
     = Some (0, length (bs ''[E=mc^2'' @ bs '']'')) \<and>
   exec re (protect (bs ''[E=mc^2'' @ bs '']'')) (length (bs ''[E=mc^2'' @ bs '']'')) = None \<and>
   processLatexForDisplay
     (Some (bs ''begin{equation}E=mc^2'' @ bs ''label{eq:1}'' @ bs ''end{equation}''))
     = bs ''[E=mc^2'' @ bs '']''"
  by (simp add: pld_eval regex_eval)

text \<open>
  C2. Every character of the input outside a matched delimiter pair is to be escaped in the
  output. The text \<open>a<br />b\<close> has no delimiter pair, and its tag comes out as markup:
  the pattern that protects the injected line breaks also matches a tag of the text.
\<close>

theorem br_tag_in_plain_text_stays_markup:
  "exec re (str ''a<br />b'') 0 = None \<and>
   processLatexForDisplay (Some (str ''a<br />b'')) = str ''a<br>b''"
  by (simp add: pld_eval regex_eval)




text \<open>
  C8. Inside a matched math span the content is to stay intact apart from the two
  \<^verbatim>\<open>\hspace\<close> repairs. The text \<open>$a<br/>b$\<close> is one matched span in which \<^verbatim>\<open>\hspace\<close> does
  not occur, and it comes out changed: the tag inside the span is replaced by the sentinel
  before the spans are found, and the sentinel by \<open><br>\<close> at the end.
\<close>

theorem br_tag_in_math_span_is_rewritten:
  "spans (protect (normalize (str ''$a<br/>b$''))) 0 = [Plain [], Math (str ''$a__BR_SENTINEL__b$'')] \<and>
   map_option (\<lambda>r. (fst r, fst (snd r))) (exec re (str ''$a<br/>b$'') 0)
     = Some (0, length (str ''$a<br/>b$'')) \<and>
   \<not> sublist (bs ''hspace'') (str ''$a<br/>b$'') \<and>
   processLatexForDisplay (Some (str ''$a<br/>b$'')) = str ''$a<br>b$'' \<and>
   processLatexForDisplay (Some (str ''$a<br/>b$'')) \<noteq> str ''$a<br/>b$''"
proof -
  have 1: "protect (normalize (str ''$a<br/>b$'')) = str ''$a__BR_SENTINEL__b$''"
    by (simp add: pld_eval regex_eval)
  have l: "length (str ''$a__BR_SENTINEL__b$'') = 19"
    by (simp add: str_def)
  have "map_option (\<lambda>r. (fst r, fst (snd r))) (exec re (str ''$a__BR_SENTINEL__b$'') 0)
          = Some (0, 19)"
    by (simp add: pld_eval regex_eval)
  then obtain c where 2: "exec re (str ''$a__BR_SENTINEL__b$'') 0 = Some (0, 19, c)"
    by (cases "exec re (str ''$a__BR_SENTINEL__b$'') 0") auto
  have 3: "exec re (str ''$a__BR_SENTINEL__b$'') 19 = None"
    by (simp add: pld_eval regex_eval)
  have s19: "spans (str ''$a__BR_SENTINEL__b$'') 19 = []"
    by (subst spans.simps) (simp only: 3 option.case l, simp)
  have 4: "spans (str ''$a__BR_SENTINEL__b$'') 0 = [Plain [], Math (str ''$a__BR_SENTINEL__b$'')]"
    by (subst spans.simps) (simp only: 2 option.case prod.case s19, simp add: slice_def l [symmetric])
  have 5: "map_option (\<lambda>r. (fst r, fst (snd r))) (exec re (str ''$a<br/>b$'') 0)
     = Some (0, length (str ''$a<br/>b$''))"
    by (simp add: pld_eval regex_eval)
  have 6: "\<not> sublist (bs ''hspace'') (str ''$a<br/>b$'')"
    by (simp add: str_def bs_def sublist_code)
  have 7: "processLatexForDisplay (Some (str ''$a<br/>b$'')) = str ''$a<br>b$''"
    by (simp add: pld_eval regex_eval)
  have 8: "str ''$a<br>b$'' \<noteq> str ''$a<br/>b$''"
    by (simp add: str_def)
  from 1 4 5 6 7 8 show ?thesis by simp
qed

section \<open>Claims about escapeHTML\<close>

text \<open>
  C5, as stated: the result of \<open>escapeHTML\<close> contains none of the five characters. It
  fails for \<open>&\<close>, which every entity starts with: escaping \<open>a<b\<close> gives a string with \<open>&\<close>.
\<close>

theorem escapeHTML_output_has_ampersand:
  "is_html_special 0x26 \<and> 0x26 \<in> set (escapeHTML (str ''a<b''))"
  by (simp add: escapeHTML_map esc_def is_html_special_def entity_def str_def)

text \<open>
  C5, amended: \<open>escapeHTML\<close> replaces each of the five characters by its entity and leaves
  every other code unit, so its result contains no \<open><\<close>, \<open>>\<close>, double or single quote (an \<open>&\<close>
  only as the start of an entity); the inverse entity substitution gives the argument back,
  and the length does not decrease.
\<close>

theorem escapeHTML_entities:
  "escapeHTML s = concat (map (\<lambda>c. if is_html_special c then entity [c] else [c]) s) \<and>
   set (escapeHTML s) \<inter> {0x3C, 0x3E, 0x22, 0x27} = {} \<and>
   unescapeHTML (escapeHTML s) = s \<and>
   length s \<le> length (escapeHTML s)"
  using escapeHTML_map [of s] escapeHTML_no_markup [of s] unescapeHTML_concat_esc [of s]
    length_escapeHTML [of s]
  by (simp add: esc_def [abs_def])

section \<open>Claims about parseCandidates\<close>

text \<open>
  C6. \<open>parseCandidates\<close> never ends with an exception, whatever \<open>JSON.parse\<close> and the
  evaluation do; an array is returned as it is, \<open>null\<close> and \<open>undefined\<close> give the empty
  array, and so does a string for which the strict parse, the parse of the lenient rewrite
  and the guarded evaluation all fail. When \<open>JSON.parse\<close> reads \<open>[]\<close> as the empty array,
  so does \<open>parseCandidates\<close>. The lenient rewrite turns the text with single quotes into
  the JSON text with double quotes; when \<open>JSON.parse\<close> rejects the first and reads the second
  as one record with title \<open>Foo\<close> and confidence \<open>0.5\<close>, that is the result.
\<close>

theorem parseCandidates_total:
  "parseCandidates rt raw \<noteq> Throws \<and>
   parseCandidates rt (Array xs) = Returns (Array xs) \<and>
   parseCandidates rt Null = Returns (Array []) \<and>
   parseCandidates rt Undefined = Returns (Array []) \<and>
   (JSON_parse rt (trim s) = Throws \<longrightarrow> JSON_parse rt (lenient (trim s)) = Throws \<longrightarrow>
      (\<not> test re_allowed (trim s) \<or> Function_call rt (function_source (trim s)) = Throws) \<longrightarrow>
      parseCandidates rt (String s) = Returns (Array [])) \<and>
   (JSON_parse rt (str ''[]'') = Returns (Array []) \<longrightarrow>
      parseCandidates rt (String (str ''[]'')) = Returns (Array [])) \<and>
   lenient python_text = json_text \<and>
   (JSON_parse rt python_text = Throws \<longrightarrow> JSON_parse rt json_text = Returns foo_candidates \<longrightarrow>
      parseCandidates rt (String python_text) = Returns foo_candidates)"
proof -
  have 5: "parseCandidates rt (String s) = Returns (Array [])"
    if "JSON_parse rt (trim s) = Throws" "JSON_parse rt (lenient (trim s)) = Throws"
      "\<not> test re_allowed (trim s) \<or> Function_call rt (function_source (trim s)) = Throws"
    using that by (auto simp: parseCandidates_def Let_def try_catch_def return_empty_def)
  have t: "trim (str ''[]'') = str ''[]''"
    by (simp add: pc_eval str_def)
  have 6: "parseCandidates rt (String (str ''[]'')) = Returns (Array [])"
    if "JSON_parse rt (str ''[]'') = Returns (Array [])"
    using that by (simp add: parseCandidates_def Let_def try_catch_def t)
  have n: "python_text \<noteq> []"
    by (simp add: python_text_def str_def)
  have 8: "parseCandidates rt (String python_text) = Returns foo_candidates"
    if "JSON_parse rt python_text = Throws" "JSON_parse rt json_text = Returns foo_candidates"
    using that n
    by (simp add: parseCandidates_def Let_def try_catch_def trim_python lenient_python)
  from 5 6 8 show ?thesis
    by (simp add: parseCandidates_not_Throws lenient_python) (simp add: parseCandidates_def)
qed

theorem parseCandidates_total_witness:
  "parseCandidates demo_runtime (String (str '' oops '')) = Returns (Array []) \<and>
   parseCandidates demo_runtime (String (str ''[]'')) = Returns (Array []) \<and>
   parseCandidates demo_runtime (String python_text) = Returns foo_candidates"
proof -
  have t: "trim (str '' oops '') = str ''oops''"
    by (simp add: pc_eval str_def)
  have l: "lenient (str ''oops'') = str ''oops''"
    by (simp add: pc_eval regex_eval)
  have 1: "JSON_parse demo_runtime (trim (str '' oops '')) = Throws"
    unfolding t by (simp add: demo_runtime_def json_text_def str_def dq_def)
  have 2: "JSON_parse demo_runtime (lenient (trim (str '' oops ''))) = Throws"
    unfolding t l by (simp add: demo_runtime_def json_text_def str_def dq_def)
  have 3: "Function_call demo_runtime (function_source (trim (str '' oops ''))) = Throws"
    by (simp add: demo_runtime_def)
  have 4: "JSON_parse demo_runtime (str ''[]'') = Returns (Array [])"
    by (simp add: demo_runtime_def)
  have 5: "JSON_parse demo_runtime python_text = Throws"
    by (simp add: demo_runtime_def json_text_def python_text_def str_def dq_def sq_def)
  have 6: "JSON_parse demo_runtime json_text = Returns foo_candidates"
    by (simp add: demo_runtime_def json_text_def str_def dq_def)
  from parseCandidates_total [of demo_runtime Null "[]" "str '' oops ''"] 1 2 3 4 5 6
  show ?thesis by blast
qed

text \<open>
  C10. The allow-list accepts every text of ASCII letters and parentheses, so it accepts
  texts that are no data literals. \<open>alert(1)\<close> passes it and is left as it is by the lenient
  rewrite; when \<open>JSON.parse\<close> rejects it, the text is evaluated inside
  \<^verbatim>\<open>"use strict";return (alert(1))\<close> and the value of that call is returned.
\<close>

theorem guard_admits_calls:
  "((\<forall>c\<in>set text. (0x41 \<le> c \<and> c \<le> 0x5A) \<or> (0x61 \<le> c \<and> c \<le> 0x7A) \<or> c = 0x28 \<or> c = 0x29)
      \<longrightarrow> test re_allowed text) \<and>
   test re_allowed (str ''alert(1)'') \<and>
   lenient (str ''alert(1)'') = str ''alert(1)'' \<and>
   function_source (str ''alert(1)'') = dq ''use strict'' @ str '';return (alert(1))'' \<and>
   (JSON_parse rt (str ''alert(1)'') = Throws \<longrightarrow>
    Function_call rt (function_source (str ''alert(1)'')) = Returns v \<longrightarrow>
      parseCandidates rt (String (str ''alert(1)'')) = Returns v)"
proof -
  have 1: "test re_allowed text"
    if "\<forall>c\<in>set text. (0x41 \<le> c \<and> c \<le> 0x5A) \<or> (0x61 \<le> c \<and> c \<le> 0x7A) \<or> c = 0x28 \<or> c = 0x29"
  proof -
    have "allowed c" if "c \<in> set text" for c
      using \<open>\<forall>c\<in>set text. _\<close> that by (auto simp: allowed_def str_def)
    then show ?thesis by (simp add: test_re_allowed list_all_iff)
  qed
  have 2: "test re_allowed (str ''alert(1)'')"
    by (simp add: test_re_allowed allowed_def str_def)
  have 3: "lenient (str ''alert(1)'') = str ''alert(1)''"
    by (simp add: pc_eval regex_eval)
  have 4: "function_source (str ''alert(1)'') = dq ''use strict'' @ str '';return (alert(1))''"
    by (simp add: function_source_def str_def)
  have t: "trim (str ''alert(1)'') = str ''alert(1)''"
    by (simp add: pc_eval str_def)
  have n: "str ''alert(1)'' \<noteq> []"
    by (simp add: str_def)
  have 5: "parseCandidates rt (String (str ''alert(1)'')) = Returns v"
    if "JSON_parse rt (str ''alert(1)'') = Throws"
      "Function_call rt (function_source (str ''alert(1)'')) = Returns v"
    using that n 2 by (simp add: parseCandidates_def Let_def try_catch_def t 3)
  from 1 2 3 4 5 show ?thesis by blast
qed

theorem guard_admits_calls_witness:
  "test re_allowed (str ''f(x)'') \<and>
   parseCandidates calling_runtime (String (str ''alert(1)'')) = Returns Undefined"
proof -
  have 1: "\<forall>c\<in>set (str ''f(x)''). (0x41 \<le> c \<and> c \<le> 0x5A) \<or> (0x61 \<le> c \<and> c \<le> 0x7A) \<or> c = 0x28 \<or> c = 0x29"
    by (simp add: str_def)
  have 2: "JSON_parse calling_runtime (str ''alert(1)'') = Throws"
    by (simp add: calling_runtime_def)
  have 3: "Function_call calling_runtime (function_source (str ''alert(1)'')) = Returns Undefined"
    by (simp add: calling_runtime_def)
  from guard_admits_calls [of "str ''f(x)''" calling_runtime Undefined] 1 2 3
  show ?thesis by blast
qed

section \<open>Claims about formatConfidence\<close>

text \<open>
  C9. \<open>formatConfidence\<close> coerces its argument to a number. When that number is not finite
  the result is the text of the argument itself; when it is finite and at most 1 the result
  is the text of its product with 100, rounded to the nearest integer, followed by \<open>%\<close>;
  when it is finite and greater than 1 the result is the text of the number. For the double
  next to 0.873 and a product rounded to the next double the result is \<open>87%\<close>, given that the
  text of 87 is \<open>87\<close>; for 3 it is \<open>3\<close>, given that the text of 3 is \<open>3\<close>; for the string
  \<open>abc\<close> it is \<open>abc\<close>, given that the string coerces to \<open>NaN\<close>.
\<close>

theorem formatConfidence_cases:
  "(\<not> isFinite (ToNumber eng c) \<longrightarrow> formatConfidence eng c = ToString eng c) \<and>
   (ToNumber eng c = Finite x \<and> x \<le> 1 \<longrightarrow>
      formatConfidence eng c
        = Number_toString eng (Math_round (multiply eng (Finite x) (Finite 100))) @ str ''%'') \<and>
   (ToNumber eng c = Finite x \<and> 1 < x \<longrightarrow>
      formatConfidence eng c = Number_toString eng (Finite x)) \<and>
   (\<exists>n::int. Math_round (Finite y) = Finite (of_int n) \<and> \<bar>of_int n - y\<bar> \<le> 1 / 2) \<and>
   (\<bar>d - 873 / 1000\<bar> \<le> 873 / 1000 / 2 ^ 53 \<and>
    multiply eng (Finite d) (Finite 100) = Finite p \<and> \<bar>p - 100 * d\<bar> \<le> \<bar>100 * d\<bar> / 2 ^ 53 \<and>
    Number_toString eng (Finite 87) = str ''87'' \<longrightarrow>
      formatConfidence eng (Number d) = str ''87%'') \<and>
   (Number_toString eng (Finite 3) = str ''3'' \<longrightarrow> formatConfidence eng (Number 3) = str ''3'') \<and>
   (Number_of eng (String (str ''abc'')) = NaN \<longrightarrow>
      formatConfidence eng (String (str ''abc'')) = str ''abc'')"
proof -
  have 1: "formatConfidence eng c = ToString eng c" if "\<not> isFinite (ToNumber eng c)"
    using that by (simp add: formatConfidence_def Let_def)
  have 2: "formatConfidence eng c
        = Number_toString eng (Math_round (multiply eng (Finite x) (Finite 100))) @ str ''%''"
    if "ToNumber eng c = Finite x" "x \<le> 1"
    using that by (simp add: formatConfidence_def Let_def isFinite_def le_num_def)
  have 3: "formatConfidence eng c = Number_toString eng (Finite x)"
    if "ToNumber eng c = Finite x" "1 < x"
    using that by (simp add: formatConfidence_def Let_def isFinite_def le_num_def)
  have 5: "formatConfidence eng (Number d) = str ''87%''"
    if d: "\<bar>d - 873 / 1000\<bar> \<le> 873 / 1000 / 2 ^ 53"
      and m: "multiply eng (Finite d) (Finite 100) = Finite p"
      and p: "\<bar>p - 100 * d\<bar> \<le> \<bar>100 * d\<bar> / 2 ^ 53"
      and s: "Number_toString eng (Finite 87) = str ''87''"
  proof -
    have "(873::rat) / 1000 / 2 ^ 53 \<le> 1 / 10" by simp
    with d have "d \<le> 1" by linarith
    moreover from round_873 [OF d p] have "Math_round (Finite p) = Finite 87"
      by (simp add: Math_round_def)
    ultimately show ?thesis
      using m s
      by (simp add: formatConfidence_def Let_def ToNumber_def isFinite_def le_num_def str_def)
  qed
  have 6: "formatConfidence eng (Number 3) = str ''3''"
    if "Number_toString eng (Finite 3) = str ''3''"
    using that by (simp add: formatConfidence_def Let_def ToNumber_def isFinite_def le_num_def)
  have 7: "formatConfidence eng (String (str ''abc'')) = str ''abc''"
    if "Number_of eng (String (str ''abc'')) = NaN"
    using that
    by (simp add: formatConfidence_def Let_def ToNumber_def ToString_def isFinite_def)
  from 1 2 3 5 6 7 Math_round_nearest [of y] show ?thesis by blast
qed

theorem formatConfidence_cases_witness:
  "formatConfidence exact_numerics (Number (873 / 1000)) = str ''87%'' \<and>
   formatConfidence exact_numerics (Number 3) = str ''3'' \<and>
   formatConfidence exact_numerics (String (str ''abc'')) = str ''abc'' \<and>
   formatConfidence exact_numerics (Number (1 / 2)) = str ''50%'' \<and>
   formatConfidence exact_numerics Undefined = str ''?''"
proof -
  let ?e = exact_numerics
  have a: "\<bar>(873::rat) / 1000 - 873 / 1000\<bar> \<le> 873 / 1000 / 2 ^ 53" by simp
  have b: "multiply ?e (Finite (873 / 1000)) (Finite 100) = Finite (873 / 10)"
    by (simp add: exact_numerics_def)
  have c: "\<bar>(873::rat) / 10 - 100 * (873 / 1000)\<bar> \<le> \<bar>100 * (873 / 1000)\<bar> / 2 ^ 53" by simp
  have s87: "Number_toString ?e (Finite 87) = str ''87''"
    by (simp add: exact_numerics_def)
  have s3: "Number_toString ?e (Finite 3) = str ''3''"
    by (simp add: exact_numerics_def)
  have n: "Number_of ?e (String (str ''abc'')) = NaN"
    by (simp add: exact_numerics_def)
  have i1: "formatConfidence ?e (Number (873 / 1000)) = str ''87%''"
    and i2: "formatConfidence ?e (Number 3) = str ''3''"
    and i3: "formatConfidence ?e (String (str ''abc'')) = str ''abc''"
    using formatConfidence_cases [of ?e Undefined 0 0 "873 / 1000" "873 / 10"] a b c s87 s3 n
    by blast+
  have h: "ToNumber ?e (Number (1 / 2)) = Finite (1 / 2) \<and> (1 / 2 :: rat) \<le> 1"
    by (simp add: ToNumber_def)
  have f: "\<lfloor>(101::rat) / 2\<rfloor> = 50" by linarith
  have r: "Number_toString ?e (Math_round (multiply ?e (Finite (1 / 2)) (Finite 100))) @ str ''%''
             = str ''50%''"
    by (simp add: exact_numerics_def Math_round_def str_def f)
  have i4: "formatConfidence ?e (Number (1 / 2)) = str ''50%''"
    using formatConfidence_cases [of ?e "Number (1 / 2)" "1 / 2" 0 0 0] h r by simp
  have u: "\<not> isFinite (ToNumber ?e Undefined)"
    by (simp add: ToNumber_def isFinite_def exact_numerics_def)
  have t: "ToString ?e Undefined = str ''?''"
    by (simp add: ToString_def exact_numerics_def)
  have i5: "formatConfidence ?e Undefined = str ''?''"
    using formatConfidence_cases [of ?e Undefined 0 0 0 0] u t by simp
  from i1 i2 i3 i4 i5 show ?thesis by blast
qed

end
